theory Spec2Isabelle
  imports Main "HOL-Library.While_Combinator"
begin

section \<open>Strings\<close>

text \<open>
  The embedding follows \<^verbatim>\<open>remove_console_logs_v2.py\<close>. A Python \<^verbatim>\<open>str\<close> is a
  \<open>string\<close>; its characters are the code points 0 to 255. \<open>isspace\<close> is Python's
  \<^verbatim>\<open>str.isspace\<close> on that range: tab, line feed, vertical tab, form feed, carriage
  return, the four separators 0x1C to 0x1F, space, NEL (0x85) and the no-break space (0xA0).
\<close>

definition newline :: char where
  "newline = CHR 0x0A"

definition backtick :: char where
  "backtick = CHR 0x60"

definition isspace :: "char \<Rightarrow> bool" where
  "isspace c = (c \<in> set [CHR 0x09, CHR 0x0A, CHR 0x0B, CHR 0x0C, CHR 0x0D,
                          CHR 0x1C, CHR 0x1D, CHR 0x1E, CHR 0x1F, CHR 0x20, CHR 0x85, CHR 0xA0])"

text \<open>\<^verbatim>\<open>s.lstrip()\<close> and \<^verbatim>\<open>s.rstrip()\<close> with no argument remove whitespace.\<close>

definition lstrip :: "string \<Rightarrow> string" where
  "lstrip s = dropWhile isspace s"

definition rstrip :: "string \<Rightarrow> string" where
  "rstrip s = rev (dropWhile isspace (rev s))"

definition startswith :: "string \<Rightarrow> string \<Rightarrow> bool" where
  "startswith s p = (take (length p) s = p)"

definition endswith :: "string \<Rightarrow> string \<Rightarrow> bool" where
  "endswith s p = (length p \<le> length s \<and> drop (length s - length p) s = p)"

text \<open>\<^verbatim>\<open>s.count(c)\<close> for a one-character \<open>c\<close>; Python's integers are unbounded.\<close>

definition count :: "string \<Rightarrow> char \<Rightarrow> int" where
  "count s c = int (length (filter (\<lambda>x. x = c) s))"

section \<open>The scanner of \<^verbatim>\<open>comment_out_console_statements\<close>\<close>

definition methods :: "string list" where
  "methods = [''log'', ''error'', ''warn'', ''info'']"

text \<open>The condition of the \<^verbatim>\<open>if\<close> at lines 26 to 28, on the stripped line.\<close>

definition is_console_call :: "string \<Rightarrow> bool" where
  "is_console_call stripped =
     (startswith stripped ''console.'' \<and>
      \<not> startswith stripped ''// console.'' \<and>
      list_ex (\<lambda>meth. startswith stripped (''console.'' @ meth)) methods)"

text \<open>
  The inner loop of lines 39 to 44, entered at index \<open>i\<close>: it stops at the first line
  from \<open>i\<close> on that contains a backtick, or at \<open>length lines\<close>.
\<close>

function scan_backtick :: "string list \<Rightarrow> nat \<Rightarrow> nat" where
  "scan_backtick lines i =
     (if i < length lines
      then (if backtick \<in> set (lines ! i) then i else scan_backtick lines (i + 1))
      else i)"
  by pat_completeness auto
termination
  by (relation "measure (\<lambda>(lines, i). length lines - i)") auto

declare scan_backtick.simps [simp del]

text \<open>The inner loop of lines 51 to 53; the result is the index at its exit.\<close>

function scan_parens :: "string list \<Rightarrow> nat \<Rightarrow> int \<Rightarrow> nat" where
  "scan_parens lines i open_parens =
     (if i < length lines \<and> open_parens > 0
      then scan_parens lines (i + 1)
             (open_parens + (count (lines ! i) CHR ''('' - count (lines ! i) CHR '')''))
      else i)"
  by pat_completeness auto
termination
  by (relation "measure (\<lambda>(lines, i, open_parens). length lines - i)") auto

declare scan_parens.simps [simp del]

text \<open>
  Lines 36 to 54 for a matched line at index \<open>i\<close>: the value of the index when line 56 is
  reached, which is the end of the statement's span. The subtraction of line 54 is on a
  value that is at least \<open>i + 1\<close> (lemma \<open>scan_parens_ge\<close>), so it is exact on \<open>nat\<close>.
\<close>

definition find_end :: "string list \<Rightarrow> nat \<Rightarrow> string \<Rightarrow> nat" where
  "find_end lines i stripped =
     (if backtick \<in> set stripped \<and> count stripped backtick mod 2 = 1
      then scan_backtick lines (i + 1)
      else if \<not> endswith (rstrip stripped) '';'' \<and> \<not> endswith (rstrip stripped) '')''
      then (let open_parens = count stripped CHR ''('' - count stripped CHR '')''
            in if open_parens > 0 then scan_parens lines (i + 1) open_parens - 1 else i)
      else i)"

text \<open>The rewritten line of line 31.\<close>

definition indent_of :: "string \<Rightarrow> string" where
  "indent_of line = take (length line - length (lstrip line)) line"

definition commented :: "string \<Rightarrow> string" where
  "commented line = indent_of line @ ''// '' @ lstrip line"

text \<open>
  One iteration of the main loop (lines 21 to 56) on the state of the scan: the lines, the
  index and the flag \<^verbatim>\<open>modified\<close>.
\<close>

definition loop_body :: "string list \<times> nat \<times> bool \<Rightarrow> string list \<times> nat \<times> bool" where
  "loop_body s =
     (case s of (lines, i, modified) \<Rightarrow>
        let line = lines ! i;
            stripped = lstrip line
        in if is_console_call stripped
           then (let lines' = lines[i := commented line]
                 in (lines', find_end lines' i stripped + 1, True))
           else (lines, i + 1, modified))"

text \<open>The condition of the main loop (line 20).\<close>

definition loop_cond :: "string list \<times> nat \<times> bool \<Rightarrow> bool" where
  "loop_cond s = (case s of (lines, i, modified) \<Rightarrow> i < length lines)"

lemma scan_backtick_ge: "i \<le> scan_backtick lines i"
proof (induction lines i rule: scan_backtick.induct)
  case (1 lines i)
  then show ?case
    by (subst scan_backtick.simps) (auto dest: Suc_leD)
qed

lemma scan_backtick_le: "i \<le> length lines \<Longrightarrow> scan_backtick lines i \<le> length lines"
proof (induction lines i rule: scan_backtick.induct)
  case (1 lines i)
  then show ?case
    by (subst scan_backtick.simps) auto
qed

lemma scan_parens_ge: "i \<le> scan_parens lines i open_parens"
proof (induction lines i open_parens rule: scan_parens.induct)
  case (1 lines i open_parens)
  then show ?case
    by (subst scan_parens.simps) (auto dest: Suc_leD)
qed

lemma scan_parens_le: "i \<le> length lines \<Longrightarrow> scan_parens lines i open_parens \<le> length lines"
proof (induction lines i open_parens rule: scan_parens.induct)
  case (1 lines i open_parens)
  then show ?case
    by (subst scan_parens.simps) auto
qed

lemma find_end_ge: "i \<le> find_end lines i stripped"
proof -
  have "i + 1 \<le> scan_backtick lines (i + 1)"
    by (rule scan_backtick_ge)
  then have b: "i \<le> scan_backtick lines (i + 1)"
    by simp
  have p: "i \<le> scan_parens lines (i + 1) p - 1" for p
    using scan_parens_ge [of "i + 1" lines p] by simp
  show ?thesis
    using b p by (simp add: find_end_def Let_def)
qed

lemma find_end_le: "i < length lines \<Longrightarrow> find_end lines i stripped \<le> length lines"
proof -
  assume i: "i < length lines"
  then have b: "scan_backtick lines (i + 1) \<le> length lines"
    by (intro scan_backtick_le) simp
  from i have p: "scan_parens lines (i + 1) p - 1 \<le> length lines" for p
    using scan_parens_le [of "i + 1" lines p] by simp
  show ?thesis
    using i b p by (simp add: find_end_def Let_def)
qed

lemma loop_body_length: "length (fst (loop_body (lines, i, modified))) = length lines"
  by (simp add: loop_body_def Let_def)

lemma loop_body_index: "i < fst (snd (loop_body (lines, i, modified)))"
  using find_end_ge [of i "lines[i := commented (lines ! i)]" "lstrip (lines ! i)"]
  by (simp add: loop_body_def Let_def less_Suc_eq_le)

text \<open>The main loop of lines 20 to 56; it returns the lines and the flag.\<close>

function comment_loop :: "string list \<times> nat \<times> bool \<Rightarrow> string list \<times> bool" where
  "comment_loop (lines, i, modified) =
     (if i < length lines
      then comment_loop (loop_body (lines, i, modified))
      else (lines, modified))"
  by pat_completeness auto
termination
proof (relation "measure (\<lambda>(lines, i, modified). length lines - i)")
  show "wf (measure (\<lambda>(lines, i, modified). length lines - i))"
    by simp
next
  fix lines :: "string list" and i :: nat and modified :: bool
  assume "i < length lines"
  obtain lines' i' modified' where b: "loop_body (lines, i, modified) = (lines', i', modified')"
    by (cases "loop_body (lines, i, modified)") auto
  from b have "length lines' = length lines"
    using loop_body_length [of lines i modified] by simp
  moreover from b have "i < i'"
    using loop_body_index [of i lines modified] by simp
  ultimately show "(loop_body (lines, i, modified), (lines, i, modified))
      \<in> measure (\<lambda>(lines, i, modified). length lines - i)"
    using b \<open>i < length lines\<close> by simp
qed

declare comment_loop.simps [simp del]

text \<open>
  Lines 17 to 62 on the lines that \<^verbatim>\<open>readlines\<close> returned: the lines that the file
  holds after the call, and the returned flag. The file is written only when
  \<^verbatim>\<open>modified\<close> is set (lines 58 to 62); otherwise it keeps the lines that were read.
\<close>

definition comment_out_lines :: "string list \<Rightarrow> string list \<times> bool" where
  "comment_out_lines lines =
     (case comment_loop (lines, 0, False) of
        (lines', modified) \<Rightarrow> if modified then (lines', True) else (lines, False))"

section \<open>Files\<close>

text \<open>
  A file is its content, a string: the text that Python reads from it, in which every
  line ending is a line feed. \<^verbatim>\<open>f.readlines()\<close> cuts the content after every
  line feed, and each line keeps its line feed; \<^verbatim>\<open>f.writelines(lines)\<close> writes the
  concatenation of the lines.
\<close>

fun readlines :: "string \<Rightarrow> string list" where
  "readlines [] = []"
| "readlines (c # cs) =
     (if c = newline then [c] # readlines cs
      else (case readlines cs of [] \<Rightarrow> [[c]] | l # ls \<Rightarrow> (c # l) # ls))"

definition writelines :: "string list \<Rightarrow> string" where
  "writelines lines = concat lines"

text \<open>
  \<^verbatim>\<open>comment_out_console_statements\<close> (lines 12 to 62) on the content of the file at
  \<^verbatim>\<open>file_path\<close>: the content after the call and the returned flag.
\<close>

definition comment_out_console_statements :: "string \<Rightarrow> string \<times> bool" where
  "comment_out_console_statements content =
     (case comment_loop (readlines content, 0, False) of
        (lines', modified) \<Rightarrow>
          if modified then (writelines lines', True) else (content, False))"

section \<open>The counter \<^verbatim>\<open>count_active_console_statements\<close>\<close>

text \<open>
  The regular expression of line 70 is
  \<^verbatim>\<open>^(?!.*//.*console\.(?:log|error|warn|info)).*console\.(?:log|error|warn|info)\<close>,
  used with \<^verbatim>\<open>re.MULTILINE\<close>. Its parts are matchers on the rest of the content at a
  position: \<open>call_at\<close> is \<^verbatim>\<open>console\.(?:log|error|warn|info)\<close>, and \<open>dot_star k\<close> is
  \<^verbatim>\<open>.*\<close> followed by \<open>k\<close>, where \<^verbatim>\<open>.\<close> is any character but a line feed.
\<close>

definition call_at :: "string \<Rightarrow> bool" where
  "call_at s = list_ex (\<lambda>meth. startswith s (''console.'' @ meth)) methods"

fun dot_star :: "(string \<Rightarrow> bool) \<Rightarrow> string \<Rightarrow> bool" where
  "dot_star k [] = k []"
| "dot_star k (c # cs) = (k (c # cs) \<or> (c \<noteq> newline \<and> dot_star k cs))"

definition commented_call_at :: "string \<Rightarrow> bool" where
  "commented_call_at s = (startswith s ''//'' \<and> dot_star call_at (drop 2 s))"

text \<open>The expression after \<^verbatim>\<open>^\<close>: the negative lookahead, then the rest.\<close>

definition pattern_at :: "string \<Rightarrow> bool" where
  "pattern_at s = (\<not> dot_star commented_call_at s \<and> dot_star call_at s)"

text \<open>
  With \<^verbatim>\<open>re.MULTILINE\<close>, \<^verbatim>\<open>^\<close> matches at the start of the content and after every
  line feed. A match never contains a line feed, so it ends before the next such position,
  and \<^verbatim>\<open>re.findall\<close> returns one match for every position of \<^verbatim>\<open>^\<close> at which the
  expression matches. \<open>line_starts\<close> lists the rests of the content after its line feeds.
\<close>

fun line_starts :: "string \<Rightarrow> string list" where
  "line_starts [] = []"
| "line_starts (c # cs) = (if c = newline then cs # line_starts cs else line_starts cs)"

definition count_active_console_statements :: "string \<Rightarrow> nat" where
  "count_active_console_statements content =
     length (filter pattern_at (content # line_starts content))"

section \<open>The code with the list accesses checked\<close>

text \<open>
  The same code once more, with every \<^verbatim>\<open>lines[i]\<close> as Python evaluates it: an index
  out of range raises \<^verbatim>\<open>IndexError\<close>. The code has no \<^verbatim>\<open>raise\<close> of its own.
\<close>

datatype error = IndexError

definition getitem :: "string list \<Rightarrow> nat \<Rightarrow> error + string" where
  "getitem lines i = (if i < length lines then Inr (lines ! i) else Inl IndexError)"

definition setitem :: "string list \<Rightarrow> nat \<Rightarrow> string \<Rightarrow> error + string list" where
  "setitem lines i v = (if i < length lines then Inr (lines[i := v]) else Inl IndexError)"

function scan_backtick_chk :: "string list \<Rightarrow> nat \<Rightarrow> error + nat" where
  "scan_backtick_chk lines i =
     (if i < length lines
      then (case getitem lines i of
              Inl e \<Rightarrow> Inl e
            | Inr line \<Rightarrow> if backtick \<in> set line then Inr i else scan_backtick_chk lines (i + 1))
      else Inr i)"
  by pat_completeness auto
termination
  by (relation "measure (\<lambda>(lines, i). length lines - i)") auto

declare scan_backtick_chk.simps [simp del]

function scan_parens_chk :: "string list \<Rightarrow> nat \<Rightarrow> int \<Rightarrow> error + nat" where
  "scan_parens_chk lines i open_parens =
     (if i < length lines \<and> open_parens > 0
      then (case getitem lines i of
              Inl e \<Rightarrow> Inl e
            | Inr line \<Rightarrow>
                scan_parens_chk lines (i + 1)
                  (open_parens + (count line CHR ''('' - count line CHR '')'')))
      else Inr i)"
  by pat_completeness auto
termination
  by (relation "measure (\<lambda>(lines, i, open_parens). length lines - i)") auto

declare scan_parens_chk.simps [simp del]

definition find_end_chk :: "string list \<Rightarrow> nat \<Rightarrow> string \<Rightarrow> error + nat" where
  "find_end_chk lines i stripped =
     (if backtick \<in> set stripped \<and> count stripped backtick mod 2 = 1
      then scan_backtick_chk lines (i + 1)
      else if \<not> endswith (rstrip stripped) '';'' \<and> \<not> endswith (rstrip stripped) '')''
      then (let open_parens = count stripped CHR ''('' - count stripped CHR '')''
            in if open_parens > 0
               then (case scan_parens_chk lines (i + 1) open_parens of
                       Inl e \<Rightarrow> Inl e
                     | Inr j \<Rightarrow> Inr (j - 1))
               else Inr i)
      else Inr i)"

definition loop_body_chk ::
  "string list \<times> nat \<times> bool \<Rightarrow> error + string list \<times> nat \<times> bool" where
  "loop_body_chk s =
     (case s of (lines, i, modified) \<Rightarrow>
        (case getitem lines i of
           Inl e \<Rightarrow> Inl e
         | Inr line \<Rightarrow>
             let stripped = lstrip line
             in if is_console_call stripped
                then (case setitem lines i (commented line) of
                        Inl e \<Rightarrow> Inl e
                      | Inr lines' \<Rightarrow>
                          (case find_end_chk lines' i stripped of
                             Inl e \<Rightarrow> Inl e
                           | Inr j \<Rightarrow> Inr (lines', j + 1, True)))
                else Inr (lines, i + 1, modified)))"

lemma scan_backtick_chk_eq: "scan_backtick_chk lines i = Inr (scan_backtick lines i)"
proof (induction lines i rule: scan_backtick.induct)
  case (1 lines i)
  then show ?case
    by (subst scan_backtick_chk.simps, subst scan_backtick.simps) (simp add: getitem_def)
qed

lemma scan_parens_chk_eq:
  "scan_parens_chk lines i open_parens = Inr (scan_parens lines i open_parens)"
proof (induction lines i open_parens rule: scan_parens.induct)
  case (1 lines i open_parens)
  then show ?case
    by (subst scan_parens_chk.simps, subst scan_parens.simps) (simp add: getitem_def)
qed

lemma find_end_chk_eq: "find_end_chk lines i stripped = Inr (find_end lines i stripped)"
  by (simp add: find_end_chk_def find_end_def scan_backtick_chk_eq scan_parens_chk_eq Let_def)

lemma loop_body_chk_eq:
  "i < length lines \<Longrightarrow> loop_body_chk (lines, i, modified) = Inr (loop_body (lines, i, modified))"
  by (simp add: loop_body_chk_def loop_body_def getitem_def setitem_def find_end_chk_eq Let_def)

function comment_loop_chk ::
  "string list \<times> nat \<times> bool \<Rightarrow> error + string list \<times> bool" where
  "comment_loop_chk (lines, i, modified) =
     (if i < length lines
      then (case loop_body_chk (lines, i, modified) of
              Inl e \<Rightarrow> Inl e
            | Inr s \<Rightarrow> comment_loop_chk s)
      else Inr (lines, modified))"
  by pat_completeness auto
termination
proof (relation "measure (\<lambda>(lines, i, modified). length lines - i)")
  show "wf (measure (\<lambda>(lines, i, modified). length lines - i))"
    by simp
next
  fix lines :: "string list" and i :: nat and modified :: bool
    and s :: "string list \<times> nat \<times> bool"
  assume i: "i < length lines" and "loop_body_chk (lines, i, modified) = Inr s"
  then have s: "s = loop_body (lines, i, modified)"
    by (simp add: loop_body_chk_eq)
  obtain lines' i' modified' where b: "s = (lines', i', modified')"
    by (cases s) auto
  from b s have "length lines' = length lines"
    using loop_body_length [of lines i modified] by simp
  moreover from b s have "i < i'"
    using loop_body_index [of i lines modified] by simp
  ultimately show "(s, (lines, i, modified)) \<in> measure (\<lambda>(lines, i, modified). length lines - i)"
    using b i by simp
qed

declare comment_loop_chk.simps [simp del]

definition comment_out_lines_chk :: "string list \<Rightarrow> error + string list \<times> bool" where
  "comment_out_lines_chk lines =
     (case comment_loop_chk (lines, 0, False) of
        Inl e \<Rightarrow> Inl e
      | Inr (lines', modified) \<Rightarrow> if modified then Inr (lines', True) else Inr (lines, False))"

section \<open>The spans of a pass\<close>

text \<open>
  The statement spans that the main loop resolves from index \<open>i\<close> on, in order: the start
  line of each and the index that the scan of lines 36 to 54 ends at.
\<close>

function spans :: "string list \<Rightarrow> nat \<Rightarrow> (nat \<times> nat) list" where
  "spans lines i =
     (if i < length lines
      then (if is_console_call (lstrip (lines ! i))
            then (i, find_end lines i (lstrip (lines ! i)))
                 # spans lines (find_end lines i (lstrip (lines ! i)) + 1)
            else spans lines (i + 1))
      else [])"
  by pat_completeness auto
termination
  by (relation "measure (\<lambda>(lines, i). length lines - i)")
     (auto simp: less_Suc_eq_le find_end_ge intro: diff_less_mono2)

declare spans.simps [simp del]

section \<open>The statements of the specification\<close>

text \<open>
  The match of the specification, in its words: the content after the leading whitespace
  begins with \<^verbatim>\<open>console.\<close>, then one of the four method names, then optional whitespace,
  then an opening parenthesis, and it does not begin with the comment marker.
\<close>

definition spec_match :: "string \<Rightarrow> bool" where
  "spec_match line =
     (let t = lstrip line
      in list_ex (\<lambda>meth. startswith t (''console.'' @ meth) \<and>
                   startswith (lstrip (drop (length (''console.'' @ meth)) t)) ''('') methods \<and>
         \<not> startswith t ''//'')"

text \<open>
  The conditions of the three rules, in the words of the specification: the content has an
  odd number of backticks; it does not end with \<^verbatim>\<open>;\<close> or \<^verbatim>\<open>)\<close> (the code looks
  at the content without its trailing whitespace); the count of opening minus closing
  parentheses of a line; and that count for the content of the start line \<open>s\<close> together
  with the lines after it up to line \<open>k\<close>.
\<close>

definition open_literal :: "string \<Rightarrow> bool" where
  "open_literal stripped = odd (count stripped backtick)"

definition unterminated :: "string \<Rightarrow> bool" where
  "unterminated stripped =
     (\<not> endswith (rstrip stripped) '';'' \<and> \<not> endswith (rstrip stripped) '')'')"

definition paren_delta :: "string \<Rightarrow> int" where
  "paren_delta line = count line CHR ''('' - count line CHR '')''"

definition paren_balance :: "string list \<Rightarrow> nat \<Rightarrow> nat \<Rightarrow> int" where
  "paren_balance lines s k =
     paren_delta (lstrip (lines ! s)) + (\<Sum>t = s + 1..k. paren_delta (lines ! t))"

text \<open>
  What the counter counts, read off its regular expression: a line that contains
  \<^verbatim>\<open>console.\<close> and one of the four names somewhere, and in which no \<^verbatim>\<open>//\<close> is
  followed, anywhere later, by such a call.
\<close>

fun contains_call :: "string \<Rightarrow> bool" where
  "contains_call [] = False"
| "contains_call (c # cs) = (call_at (c # cs) \<or> contains_call cs)"

fun contains_commented_call :: "string \<Rightarrow> bool" where
  "contains_commented_call [] = False"
| "contains_commented_call (c # cs) =
     ((startswith (c # cs) ''//'' \<and> contains_call (drop 2 (c # cs))) \<or> contains_commented_call cs)"

definition active_line :: "string \<Rightarrow> bool" where
  "active_line l = (contains_call l \<and> \<not> contains_commented_call l)"

text \<open>
  The lines that \<^verbatim>\<open>readlines\<close> returns: none is empty, a line feed is the last
  character of a line or not in it, and every line but the last ends with one.
\<close>

definition wf_lines :: "string list \<Rightarrow> bool" where
  "wf_lines ls =
     (\<forall>k < length ls. ls ! k \<noteq> [] \<and> newline \<notin> set (butlast (ls ! k)) \<and>
        (k + 1 < length ls \<longrightarrow> last (ls ! k) = newline))"

section \<open>Properties of the match\<close>

lemma startswith_iff: "startswith s p = (\<exists>rest. s = p @ rest)"
proof
  assume "startswith s p"
  then have "s = p @ drop (length p) s"
    by (metis append_take_drop_id startswith_def)
  then show "\<exists>rest. s = p @ rest" ..
next
  assume "\<exists>rest. s = p @ rest"
  then show "startswith s p"
    by (auto simp: startswith_def)
qed

lemma startswith_append: "startswith s (p @ q) \<Longrightarrow> startswith s p"
  by (auto simp: startswith_iff)

lemma methods_set: "set methods = {''log'', ''error'', ''warn'', ''info''}"
  by (simp add: methods_def)

lemma is_console_call_iff:
  "is_console_call t = (\<exists>meth \<in> set methods. startswith t (''console.'' @ meth))"
proof -
  have "startswith t ''console.''" if "startswith t (''console.'' @ meth)" for meth
    using that by (rule startswith_append)
  moreover have "\<not> startswith t ''// console.''" if "startswith t ''console.''"
    using that by (cases t) (auto simp: startswith_def)
  ultimately show ?thesis
    unfolding is_console_call_def list_ex_iff by blast
qed

text \<open>
  C2, as the code has it. A line is a match exactly when its content after the leading
  whitespace begins with \<^verbatim>\<open>console.\<close> and one of \<^verbatim>\<open>log\<close>, \<^verbatim>\<open>error\<close>,
  \<^verbatim>\<open>warn\<close>, \<^verbatim>\<open>info\<close>; what follows the name is not looked at. Every line that the
  specification calls a match is one, and a matched line never begins with \<^verbatim>\<open>//\<close>.
\<close>

theorem match_is_prefix_test:
  "(is_console_call (lstrip line) =
      (\<exists>meth rest. meth \<in> {''log'', ''error'', ''warn'', ''info''} \<and>
         lstrip line = ''console.'' @ meth @ rest)) \<and>
   (spec_match line \<longrightarrow> is_console_call (lstrip line)) \<and>
   (is_console_call (lstrip line) \<longrightarrow> \<not> startswith (lstrip line) ''//'')"
proof (intro conjI impI)
  have "is_console_call (lstrip line) =
      (\<exists>meth rest. meth \<in> set methods \<and> lstrip line = (''console.'' @ meth) @ rest)"
    unfolding is_console_call_iff startswith_iff by blast
  then show "is_console_call (lstrip line) =
     (\<exists>meth rest. meth \<in> {''log'', ''error'', ''warn'', ''info''} \<and>
        lstrip line = ''console.'' @ meth @ rest)"
    by (simp only: methods_set append_assoc)
  show "is_console_call (lstrip line)" if "spec_match line"
    using that unfolding is_console_call_iff spec_match_def Let_def list_ex_iff by blast
  show "\<not> startswith (lstrip line) ''//''" if "is_console_call (lstrip line)"
  proof -
    from that obtain rest where "lstrip line = ''console.'' @ rest"
      unfolding is_console_call_def startswith_iff by blast
    then show ?thesis
      by (simp add: startswith_def)
  qed
qed

theorem match_is_prefix_test_witness:
  "spec_match ''  console.warn (1);\<newline>'' \<and>
   is_console_call (lstrip ''  console.warn (1);\<newline>'') \<and>
   \<not> startswith (lstrip ''  console.warn (1);\<newline>'') ''//''"
proof -
  have m: "spec_match ''  console.warn (1);\<newline>''"
    by (simp add: spec_match_def lstrip_def isspace_def startswith_def methods_def)
  with match_is_prefix_test [of "''  console.warn (1);\<newline>''"]
  show ?thesis by blast
qed

text \<open>
  The line \<^verbatim>\<open>console.logger("x");\<close> is a match of the code and none of the
  specification: after \<^verbatim>\<open>console.log\<close> comes neither whitespace nor a parenthesis.
\<close>

theorem match_needs_no_parenthesis:
  "\<not> (is_console_call (lstrip ''console.logger(\"x\");\<newline>'') =
        spec_match ''console.logger(\"x\");\<newline>'')"
  by (simp add: is_console_call_def spec_match_def lstrip_def isspace_def startswith_def
      methods_def)

section \<open>Properties of the main loop\<close>

lemma scan_backtick_update: "k < i \<Longrightarrow> scan_backtick (lines[k := v]) i = scan_backtick lines i"
proof (induction lines i rule: scan_backtick.induct)
  case (1 lines i)
  then show ?case
    by (subst scan_backtick.simps, subst (2) scan_backtick.simps) simp
qed

lemma scan_parens_update:
  "k < i \<Longrightarrow> scan_parens (lines[k := v]) i open_parens = scan_parens lines i open_parens"
proof (induction lines i open_parens rule: scan_parens.induct)
  case (1 lines i open_parens)
  then show ?case
    by (subst scan_parens.simps, subst (2) scan_parens.simps) simp
qed

lemma find_end_update: "k \<le> i \<Longrightarrow> find_end (lines[k := v]) i stripped = find_end lines i stripped"
  by (simp add: find_end_def scan_backtick_update scan_parens_update less_Suc_eq_le)

lemma spans_update: "k < i \<Longrightarrow> spans (lines[k := v]) i = spans lines i"
proof (induction lines i rule: spans.induct)
  case (1 lines i)
  have k: "k < find_end lines i stripped + 1" for stripped
    using find_end_ge [of i lines stripped] "1.prems" by simp
  show ?case
    using 1 k by (subst spans.simps, subst (2) spans.simps) (simp add: find_end_update)
qed

lemma spans_start:
  "(s, e) \<in> set (spans lines i) \<Longrightarrow>
     i \<le> s \<and> s < length lines \<and> is_console_call (lstrip (lines ! s)) \<and>
     e = find_end lines s (lstrip (lines ! s))"
proof (induction lines i rule: spans.induct)
  case (1 lines i)
  show ?case
  proof (cases "i < length lines")
    case False
    with "1.prems" show ?thesis by (simp add: spans.simps [of lines i])
  next
    case True
    show ?thesis
    proof (cases "is_console_call (lstrip (lines ! i))")
      case False
      with True "1.prems" have "(s, e) \<in> set (spans lines (i + 1))"
        by (simp add: spans.simps [of lines i])
      with "1.IH"(2) True False show ?thesis by fastforce
    next
      case m: True
      let ?e = "find_end lines i (lstrip (lines ! i))"
      from True m "1.prems" consider "(s, e) = (i, ?e)" | "(s, e) \<in> set (spans lines (?e + 1))"
        by (auto simp: spans.simps [of lines i])
      then show ?thesis
      proof cases
        case 1
        with True m show ?thesis by simp
      next
        case 2
        with "1.IH"(1) True m have "?e + 1 \<le> s \<and> s < length lines \<and> is_console_call (lstrip (lines ! s)) \<and>
     e = find_end lines s (lstrip (lines ! s))" by simp
        moreover have "i \<le> ?e" by (rule find_end_ge)
        ultimately show ?thesis by simp
      qed
    qed
  qed
qed


lemma spans_fst:
  "k \<in> fst ` set (spans lines i) \<Longrightarrow>
     i \<le> k \<and> k < length lines \<and> is_console_call (lstrip (lines ! k))"
proof -
  assume "k \<in> fst ` set (spans lines i)"
  then obtain e where "(k, e) \<in> set (spans lines i)"
    by auto
  then show ?thesis
    using spans_start [of k e lines i] by simp
qed

lemma spans_continuation:
  "(s, e) \<in> set (spans lines i) \<Longrightarrow> s < k \<Longrightarrow> k \<le> e \<Longrightarrow> k \<notin> fst ` set (spans lines i)"
proof (induction lines i rule: spans.induct)
  case (1 lines i)
  show ?case
  proof (cases "i < length lines")
    case False
    with "1.prems" show ?thesis by (simp add: spans.simps [of lines i])
  next
    case True
    show ?thesis
    proof (cases "is_console_call (lstrip (lines ! i))")
      case False
      with True "1.prems" have "(s, e) \<in> set (spans lines (i + 1))"
        by (simp add: spans.simps [of lines i])
      with "1.IH"(2) True False "1.prems" have "k \<notin> fst ` set (spans lines (i + 1))"
        by simp
      with True False show ?thesis by (simp add: spans.simps [of lines i])
    next
      case m: True
      let ?e = "find_end lines i (lstrip (lines ! i))"
      have eq: "spans lines i = (i, ?e) # spans lines (?e + 1)"
        using True m by (simp add: spans.simps [of lines i])
      have later: "?e + 1 \<le> s'" if "s' \<in> fst ` set (spans lines (?e + 1))" for s'
        using that spans_fst [of s' lines "?e + 1"] by simp
      have "i \<le> ?e" by (rule find_end_ge)
      from eq "1.prems" consider "(s, e) = (i, ?e)" | "(s, e) \<in> set (spans lines (?e + 1))"
        by auto
      then show ?thesis
      proof cases
        case 1
        with "1.prems" have "k \<noteq> i" "k < ?e + 1" by auto
        with later [of k] show ?thesis by (auto simp: eq)
      next
        case 2
        with "1.IH"(1) True m "1.prems" have "k \<notin> fst ` set (spans lines (?e + 1))"
          by simp
        moreover from 2 have "?e + 1 \<le> s"
          using spans_start [of s e lines "?e + 1"] by simp
        with \<open>i \<le> ?e\<close> "1.prems" have "k \<noteq> i" by simp
        ultimately show ?thesis by (simp add: eq)
      qed
    qed
  qed
qed

lemma comment_loop_length: "length (fst (comment_loop (lines, i, modified))) = length lines"
proof (induction "(lines, i, modified)" arbitrary: lines i modified rule: comment_loop.induct)
  case (1 lines i modified)
  show ?case
  proof (cases "i < length lines")
    case False
    then show ?thesis by (simp add: comment_loop.simps [of lines i modified])
  next
    case True
    obtain lines' i' modified' where b: "loop_body (lines, i, modified) = (lines', i', modified')"
      by (cases "loop_body (lines, i, modified)") auto
    with "1.hyps" True have "length (fst (comment_loop (lines', i', modified'))) = length lines'"
      by simp
    moreover from b have "length lines' = length lines"
      using loop_body_length [of lines i modified] by simp
    ultimately show ?thesis
      using True b by (simp add: comment_loop.simps [of lines i modified])
  qed
qed

lemma comment_loop_nth:
  "k < length lines \<Longrightarrow>
   fst (comment_loop (lines, i, modified)) ! k =
     (if k \<in> fst ` set (spans lines i) then commented (lines ! k) else lines ! k)"
proof (induction "(lines, i, modified)" arbitrary: lines i modified rule: comment_loop.induct)
  case (1 lines i modified)
  show ?case
  proof (cases "i < length lines")
    case False
    then show ?thesis
      by (simp add: comment_loop.simps [of lines i modified] spans.simps [of lines i])
  next
    case True
    show ?thesis
    proof (cases "is_console_call (lstrip (lines ! i))")
      case False
      with True have b: "loop_body (lines, i, modified) = (lines, i + 1, modified)"
        by (simp add: loop_body_def)
      from "1.hyps" [OF True b] "1.prems"
      have "fst (comment_loop (lines, i + 1, modified)) ! k =
          (if k \<in> fst ` set (spans lines (i + 1)) then commented (lines ! k) else lines ! k)"
        by simp
      with True False b show ?thesis
        by (simp add: comment_loop.simps [of lines i modified] spans.simps [of lines i])
    next
      case m: True
      let ?e = "find_end lines i (lstrip (lines ! i))"
      let ?lines = "lines[i := commented (lines ! i)]"
      have b: "loop_body (lines, i, modified) = (?lines, ?e + 1, True)"
        using m by (simp add: loop_body_def Let_def find_end_update)
      have eq: "spans lines i = (i, ?e) # spans lines (?e + 1)"
        using True m by (simp add: spans.simps [of lines i])
      have "i \<le> ?e" by (rule find_end_ge)
      then have sp: "spans ?lines (Suc ?e) = spans lines (Suc ?e)"
        by (intro spans_update) simp
      have later: "i < s'" if "s' \<in> fst ` set (spans lines (?e + 1))" for s'
        using that spans_fst [of s' lines "?e + 1"] \<open>i \<le> ?e\<close> by simp
      from "1.hyps" [OF True b] "1.prems"
      have IH: "fst (comment_loop (?lines, ?e + 1, True)) ! k =
          (if k \<in> fst ` set (spans lines (?e + 1)) then commented (?lines ! k) else ?lines ! k)"
        by (simp add: sp)
      show ?thesis
      proof (cases "k = i")
        case True
        with later [of i] have "i \<notin> fst ` set (spans lines (?e + 1))" by auto
        with IH True \<open>i < length lines\<close> b show ?thesis
          by (simp add: comment_loop.simps [of lines i modified] eq)
      next
        case False
        with IH \<open>i < length lines\<close> b show ?thesis
          by (simp add: comment_loop.simps [of lines i modified] eq)
      qed
    qed
  qed
qed

lemma comment_loop_flag:
  "snd (comment_loop (lines, i, modified)) = (modified \<or> spans lines i \<noteq> [])"
proof (induction "(lines, i, modified)" arbitrary: lines i modified rule: comment_loop.induct)
  case (1 lines i modified)
  show ?case
  proof (cases "i < length lines")
    case False
    then show ?thesis
      by (simp add: comment_loop.simps [of lines i modified] spans.simps [of lines i])
  next
    case True
    show ?thesis
    proof (cases "is_console_call (lstrip (lines ! i))")
      case False
      with True have b: "loop_body (lines, i, modified) = (lines, i + 1, modified)"
        by (simp add: loop_body_def)
      from "1.hyps" [OF True b] True False b show ?thesis
        by (simp add: comment_loop.simps [of lines i modified] spans.simps [of lines i])
    next
      case m: True
      let ?e = "find_end lines i (lstrip (lines ! i))"
      let ?lines = "lines[i := commented (lines ! i)]"
      have b: "loop_body (lines, i, modified) = (?lines, ?e + 1, True)"
        using m by (simp add: loop_body_def Let_def find_end_update)
      from "1.hyps" [OF True b] True m b show ?thesis
        by (simp add: comment_loop.simps [of lines i modified] spans.simps [of lines i])
    qed
  qed
qed


lemma comment_out_lines_fst: "fst (comment_out_lines lines) = fst (comment_loop (lines, 0, False))"
proof (cases "spans lines 0 = []")
  case True
  have "fst (comment_loop (lines, 0, False)) = lines"
  proof (rule nth_equalityI)
    show "length (fst (comment_loop (lines, 0, False))) = length lines"
      by (rule comment_loop_length)
  next
    fix k
    assume "k < length (fst (comment_loop (lines, 0, False)))"
    then have "k < length lines"
      by (simp add: comment_loop_length)
    then show "fst (comment_loop (lines, 0, False)) ! k = lines ! k"
      by (simp add: comment_loop_nth True)
  qed
  then show ?thesis
    by (cases "comment_loop (lines, 0, False)") (simp add: comment_out_lines_def)
next
  case False
  then have "snd (comment_loop (lines, 0, False))"
    by (simp add: comment_loop_flag)
  then show ?thesis
    by (cases "comment_loop (lines, 0, False)") (simp add: comment_out_lines_def)
qed

lemma comment_out_lines_snd: "snd (comment_out_lines lines) = (spans lines 0 \<noteq> [])"
  using comment_loop_flag [of lines 0 False]
  by (cases "comment_loop (lines, 0, False)") (simp add: comment_out_lines_def)

lemma comment_out_lines_length: "length (fst (comment_out_lines lines)) = length lines"
  by (simp add: comment_out_lines_fst comment_loop_length)

lemma comment_out_lines_nth:
  "k < length lines \<Longrightarrow>
   fst (comment_out_lines lines) ! k =
     (if k \<in> fst ` set (spans lines 0) then commented (lines ! k) else lines ! k)"
  by (simp add: comment_out_lines_fst comment_loop_nth)

lemma indent_of_takeWhile: "indent_of line = takeWhile isspace line"
proof -
  have "length line - length (dropWhile isspace line) = length (takeWhile isspace line)"
    using length_append [of "takeWhile isspace line" "dropWhile isspace line"] by simp
  then show ?thesis
    by (simp add: indent_of_def lstrip_def takeWhile_eq_take [symmetric])
qed

lemma indent_lstrip: "indent_of line @ lstrip line = line"
  by (simp add: indent_of_takeWhile lstrip_def)

lemma indent_isspace: "c \<in> set (indent_of line) \<Longrightarrow> isspace c"
  by (auto simp: indent_of_takeWhile dest: set_takeWhileD)

lemma is_console_call_nonempty: "is_console_call t \<Longrightarrow> t \<noteq> []"
  by (auto simp: is_console_call_def startswith_def)

lemma lstrip_commented: "lstrip (commented line) = ''// '' @ lstrip line"
proof -
  have "dropWhile isspace (takeWhile isspace line @ ''// '' @ lstrip line) = ''// '' @ lstrip line"
    by (subst dropWhile_append2) (auto dest: set_takeWhileD simp: isspace_def)
  then show ?thesis
    by (simp add: commented_def indent_of_takeWhile lstrip_def)
qed

lemma commented_no_match: "\<not> is_console_call (lstrip (commented line))"
  by (simp add: lstrip_commented is_console_call_def startswith_def)


text \<open>
  C5. For every span that a pass resolves, the start line is rewritten to its leading
  whitespace, then \<^verbatim>\<open>// \<close>, then its content after the leading whitespace; the
  content ends as the line did, so the line terminator is kept. The lines after the start
  line, up to the end of the span, are as they were.
\<close>

theorem start_line_commented:
  assumes "(s, e) \<in> set (spans lines 0)"
  shows "fst (comment_out_lines lines) ! s =
           indent_of (lines ! s) @ ''// '' @ lstrip (lines ! s) \<and>
         indent_of (lines ! s) @ lstrip (lines ! s) = lines ! s \<and>
         (\<forall>c \<in> set (indent_of (lines ! s)). isspace c) \<and>
         last (fst (comment_out_lines lines) ! s) = last (lines ! s) \<and>
         (\<forall>k. s < k \<and> k \<le> e \<and> k < length lines \<longrightarrow>
              fst (comment_out_lines lines) ! k = lines ! k)"
proof -
  from assms have s: "s < length lines" and m: "is_console_call (lstrip (lines ! s))"
    using spans_start [of s e lines 0] by simp_all
  from assms have "s \<in> fst ` set (spans lines 0)"
    by force
  with s have out: "fst (comment_out_lines lines) ! s =
      indent_of (lines ! s) @ ''// '' @ lstrip (lines ! s)"
    by (simp add: comment_out_lines_nth commented_def)
  from m have ne: "lstrip (lines ! s) \<noteq> []"
    by (rule is_console_call_nonempty)
  then have "last (indent_of (lines ! s) @ ''// '' @ lstrip (lines ! s)) =
      last (indent_of (lines ! s) @ lstrip (lines ! s))"
    by simp
  with out have l: "last (fst (comment_out_lines lines) ! s) = last (lines ! s)"
    by (simp only: indent_lstrip)
  have "fst (comment_out_lines lines) ! k = lines ! k"
    if "s < k" "k \<le> e" "k < length lines" for k
    using that spans_continuation [OF assms, of k] by (simp add: comment_out_lines_nth)
  with out l show ?thesis
    by (simp add: indent_lstrip indent_isspace)
qed

text \<open>Scenario A.\<close>

theorem start_line_commented_witness:
  "(0, 0) \<in> set (spans [''console.log(\"hello\");''] 0) \<and>
   fst (comment_out_lines [''console.log(\"hello\");'']) ! 0 = ''// console.log(\"hello\");''"
proof -
  have h: "(0, 0) \<in> set (spans [''console.log(\"hello\");''] 0)"
    by code_simp
  have "indent_of ''console.log(\"hello\");'' = []" "lstrip ''console.log(\"hello\");'' = ''console.log(\"hello\");''"
    by (simp_all add: indent_of_def lstrip_def isspace_def)
  with start_line_commented [OF h] h show ?thesis
    by simp
qed

text \<open>
  C7. A pass keeps the number of lines, and every line that is not the start line of a
  span is as it was; so is every line whose content after the leading whitespace begins
  with \<^verbatim>\<open>//\<close>.
\<close>

theorem other_lines_unchanged:
  "length (fst (comment_out_lines lines)) = length lines \<and>
   (\<forall>k < length lines. k \<notin> fst ` set (spans lines 0) \<longrightarrow>
      fst (comment_out_lines lines) ! k = lines ! k) \<and>
   (\<forall>k < length lines. startswith (lstrip (lines ! k)) ''//'' \<longrightarrow>
      fst (comment_out_lines lines) ! k = lines ! k)"
proof (intro conjI allI impI)
  show "length (fst (comment_out_lines lines)) = length lines"
    by (rule comment_out_lines_length)
next
  fix k
  assume "k < length lines" "k \<notin> fst ` set (spans lines 0)"
  then show "fst (comment_out_lines lines) ! k = lines ! k"
    by (simp add: comment_out_lines_nth)
next
  fix k
  assume k: "k < length lines" and c: "startswith (lstrip (lines ! k)) ''//''"
  have "\<not> is_console_call (lstrip (lines ! k))"
    using c by (cases "lstrip (lines ! k)") (auto simp: is_console_call_def startswith_def)
  then have "k \<notin> fst ` set (spans lines 0)"
    using spans_fst [of k lines 0] by blast
  with k show "fst (comment_out_lines lines) ! k = lines ! k"
    by (simp add: comment_out_lines_nth)
qed

text \<open>Scenario D, after a line that is commented out.\<close>

theorem other_lines_unchanged_witness:
  "(1::nat) < length [''console.log(1);\<newline>'', ''  // console.warn(\"x\")\<newline>''] \<and>
   startswith (lstrip ([''console.log(1);\<newline>'', ''  // console.warn(\"x\")\<newline>''] ! 1)) ''//'' \<and>
   1 \<notin> fst ` set (spans [''console.log(1);\<newline>'', ''  // console.warn(\"x\")\<newline>''] 0) \<and>
   fst (comment_out_lines [''console.log(1);\<newline>'', ''  // console.warn(\"x\")\<newline>'']) ! 1 =
     ''  // console.warn(\"x\")\<newline>''"
proof -
  let ?L = "[''console.log(1);\<newline>'', ''  // console.warn(\"x\")\<newline>'']"
  have l: "(1::nat) < length ?L"
    by simp
  have c: "startswith (lstrip (?L ! 1)) ''//''"
    by (simp add: startswith_def lstrip_def isspace_def)
  have n: "1 \<notin> fst ` set (spans ?L 0)"
    by code_simp
  from other_lines_unchanged [of ?L] l c
  have "fst (comment_out_lines ?L) ! 1 = ?L ! 1"
    by blast
  with l c n show ?thesis
    by simp
qed

section \<open>The end of a span\<close>

lemma open_literal_iff:
  "open_literal stripped = (backtick \<in> set stripped \<and> count stripped backtick mod 2 = 1)"
proof -
  have "backtick \<in> set stripped" if "odd (count stripped backtick)"
  proof (rule ccontr)
    assume "backtick \<notin> set stripped"
    then have "count stripped backtick = 0"
      by (auto simp: count_def filter_empty_conv)
    with that show False by simp
  qed
  then show ?thesis
    by (auto simp: open_literal_def odd_iff_mod_2_eq_one)
qed

lemma find_end_literal:
  "open_literal stripped \<Longrightarrow> find_end lines i stripped = scan_backtick lines (i + 1)"
  by (simp add: find_end_def open_literal_iff)

lemma find_end_parens:
  "\<not> open_literal stripped \<Longrightarrow> unterminated stripped \<Longrightarrow> 0 < paren_delta stripped \<Longrightarrow>
   find_end lines i stripped = scan_parens lines (i + 1) (paren_delta stripped) - 1"
  unfolding open_literal_iff by (auto simp: find_end_def unterminated_def paren_delta_def Let_def)

lemma find_end_single:
  "\<not> open_literal stripped \<Longrightarrow> \<not> (unterminated stripped \<and> 0 < paren_delta stripped) \<Longrightarrow>
   find_end lines i stripped = i"
  unfolding open_literal_iff by (auto simp: find_end_def unterminated_def paren_delta_def Let_def)

lemma scan_backtick_first:
  "i \<le> j \<Longrightarrow> j < length lines \<Longrightarrow> backtick \<in> set (lines ! j) \<Longrightarrow>
   (\<forall>k. i \<le> k \<and> k < j \<longrightarrow> backtick \<notin> set (lines ! k)) \<Longrightarrow>
   scan_backtick lines i = j"
proof (induction lines i rule: scan_backtick.induct)
  case (1 lines i)
  show ?case
  proof (cases "i = j")
    case True
    with "1.prems" show ?thesis by (subst scan_backtick.simps) simp
  next
    case False
    with "1.prems" have "i < j" "i < length lines" "backtick \<notin> set (lines ! i)"
      by auto
    moreover from this "1.IH" "1.prems" have "scan_backtick lines (i + 1) = j"
      by simp
    ultimately show ?thesis by (simp add: scan_backtick.simps [of lines i])
  qed
qed

lemma scan_backtick_none:
  "(\<forall>k. i \<le> k \<and> k < length lines \<longrightarrow> backtick \<notin> set (lines ! k)) \<Longrightarrow> i \<le> length lines \<Longrightarrow>
   scan_backtick lines i = length lines"
proof (induction lines i rule: scan_backtick.induct)
  case (1 lines i)
  show ?case
  proof (cases "i < length lines")
    case True
    with "1.prems" have "backtick \<notin> set (lines ! i)" by simp
    moreover from this True "1.IH" "1.prems" have "scan_backtick lines (i + 1) = length lines"
      by simp
    ultimately show ?thesis using True by (simp add: scan_backtick.simps [of lines i])
  next
    case False
    with "1.prems" show ?thesis by (subst scan_backtick.simps) simp
  qed
qed

lemma scan_backtick_skipped:
  "i \<le> k \<Longrightarrow> k < scan_backtick lines i \<Longrightarrow> backtick \<notin> set (lines ! k)"
proof (induction lines i rule: scan_backtick.induct)
  case (1 lines i)
  show ?case
  proof (cases "i < length lines \<and> backtick \<notin> set (lines ! i)")
    case True
    then have eq: "scan_backtick lines i = scan_backtick lines (i + 1)"
      by (simp add: scan_backtick.simps [of lines i])
    show ?thesis
    proof (cases "k = i")
      case True
      with \<open>i < length lines \<and> backtick \<notin> set (lines ! i)\<close> show ?thesis by simp
    next
      case False
      with "1.prems" eq True "1.IH" show ?thesis by simp
    qed
  next
    case False
    then have "scan_backtick lines i = i"
      by (auto simp: scan_backtick.simps [of lines i])
    with "1.prems" show ?thesis by simp
  qed
qed

lemma scan_parens_first:
  "i \<le> j \<Longrightarrow> j < length lines \<Longrightarrow> 0 < p \<Longrightarrow>
   (\<forall>k. i \<le> k \<and> k < j \<longrightarrow> 0 < p + (\<Sum>t = i..k. paren_delta (lines ! t))) \<Longrightarrow>
   p + (\<Sum>t = i..j. paren_delta (lines ! t)) \<le> 0 \<Longrightarrow>
   scan_parens lines i p = j + 1"
proof (induction lines i p rule: scan_parens.induct)
  case (1 lines i p)
  let ?p = "p + (count (lines ! i) CHR ''('' - count (lines ! i) CHR '')'')"
  have step: "scan_parens lines i p = scan_parens lines (i + 1) ?p"
    using "1.prems" by (simp add: scan_parens.simps [of lines i p])
  show ?case
  proof (cases "i = j")
    case True
    with "1.prems" have "?p \<le> 0"
      by (simp add: paren_delta_def)
    then have "scan_parens lines (i + 1) ?p = i + 1"
      by (subst scan_parens.simps) simp
    with step True show ?thesis by simp
  next
    case False
    with "1.prems" have lt: "i < j" by simp
    have split: "(\<Sum>t = i..k. paren_delta (lines ! t)) =
        paren_delta (lines ! i) + (\<Sum>t = i + 1..k. paren_delta (lines ! t))" if "i \<le> k" for k
      using that by (simp add: sum.atLeast_Suc_atMost)
    from "1.prems" lt have pos: "0 < ?p"
      by (auto simp: paren_delta_def dest: spec [of _ i])
    have "\<forall>k. i + 1 \<le> k \<and> k < j \<longrightarrow> 0 < ?p + (\<Sum>t = i + 1..k. paren_delta (lines ! t))"
    proof (intro allI impI)
      fix k
      assume k: "i + 1 \<le> k \<and> k < j"
      with "1.prems" have "0 < p + (\<Sum>t = i..k. paren_delta (lines ! t))"
        by simp
      with k split [of k] show "0 < ?p + (\<Sum>t = i + 1..k. paren_delta (lines ! t))"
        by (simp add: paren_delta_def)
    qed
    moreover from "1.prems" split [of j]
    have "?p + (\<Sum>t = i + 1..j. paren_delta (lines ! t)) \<le> 0"
      by (simp add: paren_delta_def)
    ultimately have "scan_parens lines (i + 1) ?p = j + 1"
      using "1.IH" "1.prems" lt pos by simp
    with step show ?thesis by simp
  qed
qed

lemma scan_parens_none:
  "i \<le> length lines \<Longrightarrow> 0 < p \<Longrightarrow>
   (\<forall>k. i \<le> k \<and> k < length lines \<longrightarrow> 0 < p + (\<Sum>t = i..k. paren_delta (lines ! t))) \<Longrightarrow>
   scan_parens lines i p = length lines"
proof (induction lines i p rule: scan_parens.induct)
  case (1 lines i p)
  let ?p = "p + (count (lines ! i) CHR ''('' - count (lines ! i) CHR '')'')"
  show ?case
  proof (cases "i < length lines")
    case False
    with "1.prems" show ?thesis by (subst scan_parens.simps) simp
  next
    case True
    with "1.prems" have step: "scan_parens lines i p = scan_parens lines (i + 1) ?p"
      by (simp add: scan_parens.simps [of lines i p])
    have split: "(\<Sum>t = i..k. paren_delta (lines ! t)) =
        paren_delta (lines ! i) + (\<Sum>t = i + 1..k. paren_delta (lines ! t))" if "i \<le> k" for k
      using that by (simp add: sum.atLeast_Suc_atMost)
    from "1.prems" True have pos: "0 < ?p"
      by (auto simp: paren_delta_def dest: spec [of _ i])
    have "\<forall>k. i + 1 \<le> k \<and> k < length lines \<longrightarrow>
        0 < ?p + (\<Sum>t = i + 1..k. paren_delta (lines ! t))"
    proof (intro allI impI)
      fix k
      assume k: "i + 1 \<le> k \<and> k < length lines"
      with "1.prems" have "0 < p + (\<Sum>t = i..k. paren_delta (lines ! t))"
        by simp
      with k split [of k] show "0 < ?p + (\<Sum>t = i + 1..k. paren_delta (lines ! t))"
        by (simp add: paren_delta_def)
    qed
    then have "scan_parens lines (i + 1) ?p = length lines"
      using "1.IH" "1.prems" True pos by simp
    with step show ?thesis by simp
  qed
qed


lemma comment_loop_chk_eq:
  "comment_loop_chk (lines, i, modified) = Inr (comment_loop (lines, i, modified))"
proof (induction "(lines, i, modified)" arbitrary: lines i modified rule: comment_loop.induct)
  case (1 lines i modified)
  show ?case
  proof (cases "i < length lines")
    case False
    then show ?thesis
      by (simp add: comment_loop.simps [of lines i modified]
          comment_loop_chk.simps [of lines i modified])
  next
    case True
    obtain lines' i' modified' where b: "loop_body (lines, i, modified) = (lines', i', modified')"
      by (cases "loop_body (lines, i, modified)") auto
    from "1.hyps" [OF True b]
    have "comment_loop_chk (lines', i', modified') = Inr (comment_loop (lines', i', modified'))" .
    with True b show ?thesis
      by (simp add: comment_loop.simps [of lines i modified]
          comment_loop_chk.simps [of lines i modified] loop_body_chk_eq)
  qed
qed

lemma comment_out_lines_chk_eq: "comment_out_lines_chk lines = Inr (comment_out_lines lines)"
  by (cases "comment_loop (lines, 0, False)")
     (simp add: comment_out_lines_chk_def comment_out_lines_def comment_loop_chk_eq)

lemma paren_balance_start: "paren_balance lines s s = paren_delta (lstrip (lines ! s))"
  by (simp add: paren_balance_def)

lemma span_end_literal:
  assumes "(s, e) \<in> set (spans lines 0)" "open_literal (lstrip (lines ! s))"
  shows "e = scan_backtick lines (s + 1)"
  using assms spans_start [of s e lines 0] by (simp add: find_end_literal)

lemma span_end_parens:
  assumes "(s, e) \<in> set (spans lines 0)" "\<not> open_literal (lstrip (lines ! s))"
    "unterminated (lstrip (lines ! s))" "0 < paren_delta (lstrip (lines ! s))"
  shows "e = scan_parens lines (s + 1) (paren_delta (lstrip (lines ! s))) - 1"
  using assms spans_start [of s e lines 0] by (simp add: find_end_parens)

lemma span_lines:
  assumes "(s, e) \<in> set (spans lines 0)"
  shows "fst (comment_out_lines lines) ! s = commented (lines ! s)"
    and "s < k \<Longrightarrow> k \<le> e \<Longrightarrow> k < length lines \<Longrightarrow> fst (comment_out_lines lines) ! k = lines ! k"
proof -
  from assms have "s < length lines" "s \<in> fst ` set (spans lines 0)"
    using spans_start [of s e lines 0] by force+
  then show "fst (comment_out_lines lines) ! s = commented (lines ! s)"
    by (simp add: comment_out_lines_nth)
  show "fst (comment_out_lines lines) ! k = lines ! k" if "s < k" "k \<le> e" "k < length lines"
    using that spans_continuation [OF assms, of k] by (simp add: comment_out_lines_nth)
qed

text \<open>
  C3. A matched start line whose content has an odd number of backticks: its span ends at
  the first later line that contains a backtick. The start line is commented out; the
  lines between the two and the closing line are as they were.
\<close>

theorem template_literal_span:
  assumes "(s, e) \<in> set (spans lines 0)"
    and "open_literal (lstrip (lines ! s))"
    and "s < j" and "j < length lines" and "backtick \<in> set (lines ! j)"
    and "\<forall>k. s < k \<and> k < j \<longrightarrow> backtick \<notin> set (lines ! k)"
  shows "e = j \<and>
         fst (comment_out_lines lines) ! s = commented (lines ! s) \<and>
         (\<forall>k. s < k \<and> k \<le> j \<longrightarrow> fst (comment_out_lines lines) ! k = lines ! k)"
proof -
  have "scan_backtick lines (s + 1) = j"
    using assms(3-6) by (intro scan_backtick_first) auto
  with span_end_literal [OF assms(1,2)] have e: "e = j"
    by simp
  with assms(4) span_lines [OF assms(1)] show ?thesis
    by simp
qed

text \<open>Scenario C.\<close>

theorem template_literal_span_witness:
  "(0, 1) \<in> set (spans [''console.log(`value: ${x}\<newline>'', ''more text`);\<newline>''] 0) \<and>
   open_literal (lstrip ([''console.log(`value: ${x}\<newline>'', ''more text`);\<newline>''] ! 0)) \<and>
   backtick \<in> set ([''console.log(`value: ${x}\<newline>'', ''more text`);\<newline>''] ! 1) \<and>
   fst (comment_out_lines [''console.log(`value: ${x}\<newline>'', ''more text`);\<newline>'']) ! 0 =
     ''// console.log(`value: ${x}\<newline>'' \<and>
   fst (comment_out_lines [''console.log(`value: ${x}\<newline>'', ''more text`);\<newline>'']) ! 1 =
     ''more text`);\<newline>''"
proof -
  let ?L = "[''console.log(`value: ${x}\<newline>'', ''more text`);\<newline>'']"
  have h1: "(0, 1) \<in> set (spans ?L 0)"
    by code_simp
  have h2: "open_literal (lstrip (?L ! 0))"
    by code_simp
  have h3: "(0::nat) < 1" and h4: "1 < length ?L"
    by simp_all
  have h5: "backtick \<in> set (?L ! 1)"
    by (simp add: backtick_def)
  have h6: "\<forall>k. (0::nat) < k \<and> k < 1 \<longrightarrow> backtick \<notin> set (?L ! k)"
    by simp
  have c: "commented (?L ! 0) = ''// console.log(`value: ${x}\<newline>''"
    by (simp add: commented_def indent_of_def lstrip_def isspace_def)
  from template_literal_span [OF h1 h2 h3 h4 h5 h6] c h1 h2 h5 show ?thesis
    by simp
qed

text \<open>
  C4. A matched start line with an even number of backticks, no \<^verbatim>\<open>;\<close> or \<^verbatim>\<open>)\<close> at
  its end and more opening than closing parentheses: its span ends at the first later line
  at which the running count is zero or less. The start line is commented out and the
  other lines of the span are as they were.
\<close>

theorem paren_balance_span:
  assumes "(s, e) \<in> set (spans lines 0)"
    and "\<not> open_literal (lstrip (lines ! s))"
    and "unterminated (lstrip (lines ! s))"
    and "0 < paren_delta (lstrip (lines ! s))"
    and "s < j" and "j < length lines" and "paren_balance lines s j \<le> 0"
    and "\<forall>k. s < k \<and> k < j \<longrightarrow> 0 < paren_balance lines s k"
  shows "e = j \<and>
         fst (comment_out_lines lines) ! s = commented (lines ! s) \<and>
         (\<forall>k. s < k \<and> k \<le> j \<longrightarrow> fst (comment_out_lines lines) ! k = lines ! k)"
proof -
  have "scan_parens lines (s + 1) (paren_delta (lstrip (lines ! s))) = j + 1"
    using assms(4-8) by (intro scan_parens_first) (auto simp: paren_balance_def)
  with span_end_parens [OF assms(1-4)] have e: "e = j"
    by simp
  with assms(6) span_lines [OF assms(1)] show ?thesis
    by simp
qed

text \<open>Scenario B: the count is 1 after the first line and 0 after the second.\<close>

theorem paren_balance_span_witness:
  "(0, 1) \<in> set (spans [''console.error(\<newline>'', ''  \"failure\", err);\<newline>''] 0) \<and>
   \<not> open_literal (lstrip ([''console.error(\<newline>'', ''  \"failure\", err);\<newline>''] ! 0)) \<and>
   unterminated (lstrip ([''console.error(\<newline>'', ''  \"failure\", err);\<newline>''] ! 0)) \<and>
   paren_balance [''console.error(\<newline>'', ''  \"failure\", err);\<newline>''] 0 0 = 1 \<and>
   paren_balance [''console.error(\<newline>'', ''  \"failure\", err);\<newline>''] 0 1 = 0 \<and>
   fst (comment_out_lines [''console.error(\<newline>'', ''  \"failure\", err);\<newline>'']) ! 0 =
     ''// console.error(\<newline>'' \<and>
   fst (comment_out_lines [''console.error(\<newline>'', ''  \"failure\", err);\<newline>'']) ! 1 =
     ''  \"failure\", err);\<newline>''"
proof -
  let ?L = "[''console.error(\<newline>'', ''  \"failure\", err);\<newline>'']"
  have h1: "(0, 1) \<in> set (spans ?L 0)"
    by code_simp
  have h2: "\<not> open_literal (lstrip (?L ! 0))"
    by code_simp
  have h3: "unterminated (lstrip (?L ! 0))"
    by code_simp
  have d: "paren_delta (lstrip (?L ! 0)) = 1"
    by (simp add: paren_delta_def count_def lstrip_def isspace_def)
  then have h4: "0 < paren_delta (lstrip (?L ! 0))"
    by simp
  have h5: "(0::nat) < 1" and h6: "1 < length ?L"
    by simp_all
  have b0: "paren_balance ?L 0 0 = 1"
    using d by (simp add: paren_balance_def)
  have b1: "paren_balance ?L 0 1 = 0"
    using d by (simp add: paren_balance_def paren_delta_def count_def)
  then have h7: "paren_balance ?L 0 1 \<le> 0"
    by simp
  have h8: "\<forall>k. (0::nat) < k \<and> k < 1 \<longrightarrow> 0 < paren_balance ?L 0 k"
    by simp
  have c: "commented (?L ! 0) = ''// console.error(\<newline>''"
    by (simp add: commented_def indent_of_def lstrip_def isspace_def)
  from paren_balance_span [OF h1 h2 h3 h4 h5 h6 h7 h8] c h1 h2 h3 b0 b1 show ?thesis
    by simp
qed

section \<open>Bounds of a span, and termination\<close>

text \<open>
  C9, as the code has it. For every span of a pass, the start is a matched line of the
  file and the end is not before it. The end is at most the number of lines; it is at most
  the index of the last line unless the start line has an odd number of backticks. It is
  the number of lines, one past the last line, exactly when the start line has an odd
  number of backticks and no later line contains one: the loop of lines 39 to 44 then
  leaves at its condition.
\<close>

theorem span_bounds:
  assumes "(s, e) \<in> set (spans lines 0)"
  shows "s < length lines \<and> is_console_call (lstrip (lines ! s)) \<and> s \<le> e \<and> e \<le> length lines \<and>
         (\<not> open_literal (lstrip (lines ! s)) \<longrightarrow> e \<le> length lines - 1) \<and>
         (e = length lines) =
           (open_literal (lstrip (lines ! s)) \<and>
            (\<forall>k. s < k \<and> k < length lines \<longrightarrow> backtick \<notin> set (lines ! k)))"
proof -
  let ?t = "lstrip (lines ! s)"
  from assms have s: "s < length lines" and m: "is_console_call ?t"
    and e: "e = find_end lines s ?t"
    using spans_start [of s e lines 0] by simp_all
  have ge: "s \<le> e"
    unfolding e by (rule find_end_ge)
  have le: "e \<le> length lines"
    unfolding e using s by (rule find_end_le)
  have other: "e \<le> length lines - 1" if "\<not> open_literal ?t"
  proof (cases "unterminated ?t \<and> 0 < paren_delta ?t")
    case True
    with that have "e = scan_parens lines (s + 1) (paren_delta ?t) - 1"
      unfolding e by (simp add: find_end_parens)
    moreover have "scan_parens lines (s + 1) (paren_delta ?t) \<le> length lines"
      using s by (intro scan_parens_le) simp
    ultimately show ?thesis by simp
  next
    case False
    with that have "e = s"
      unfolding e by (rule find_end_single)
    with s show ?thesis by simp
  qed
  have "(e = length lines) =
      (open_literal ?t \<and> (\<forall>k. s < k \<and> k < length lines \<longrightarrow> backtick \<notin> set (lines ! k)))"
  proof
    assume n: "e = length lines"
    with other s have o: "open_literal ?t"
      by fastforce
    then have "scan_backtick lines (s + 1) = length lines"
      using n e by (simp add: find_end_literal)
    then have "backtick \<notin> set (lines ! k)" if "s < k" "k < length lines" for k
      using that scan_backtick_skipped [of "s + 1" k lines] by simp
    with o show "open_literal ?t \<and> (\<forall>k. s < k \<and> k < length lines \<longrightarrow> backtick \<notin> set (lines ! k))"
      by simp
  next
    assume a: "open_literal ?t \<and> (\<forall>k. s < k \<and> k < length lines \<longrightarrow> backtick \<notin> set (lines ! k))"
    then have "scan_backtick lines (s + 1) = length lines"
      using s by (intro scan_backtick_none) auto
    with a show "e = length lines"
      unfolding e by (simp add: find_end_literal)
  qed
  with s m ge le other show ?thesis
    by simp
qed

text \<open>A call left open at the end of the file: the span ends at the last line.\<close>

theorem span_bounds_witness:
  "(0, 1) \<in> set (spans [''console.warn(\<newline>'', ''1,\<newline>''] 0) \<and>
   (0::nat) < length [''console.warn(\<newline>'', ''1,\<newline>''] \<and>
   (1::nat) \<le> length [''console.warn(\<newline>'', ''1,\<newline>''] - 1 \<and>
   \<not> open_literal (lstrip ([''console.warn(\<newline>'', ''1,\<newline>''] ! 0))"
proof -
  have h: "(0, 1) \<in> set (spans [''console.warn(\<newline>'', ''1,\<newline>''] 0)"
    by code_simp
  have o: "\<not> open_literal (lstrip ([''console.warn(\<newline>'', ''1,\<newline>''] ! 0))"
    by code_simp
  from span_bounds [OF h] o h show ?thesis
    by simp
qed

text \<open>
  A file of one line that opens a template literal: the end of its span is 1, and the
  index of the last line is 0.
\<close>

theorem span_end_past_last_line:
  "spans [''console.log(`abc\<newline>''] 0 = [(0, 1)] \<and>
   \<not> (1::nat) \<le> length [''console.log(`abc\<newline>''] - 1"
  by code_simp

lemma while_option_comment_loop:
  "map_option (\<lambda>(lines, i, modified). (lines, modified))
     (while_option loop_cond loop_body (lines, i, modified)) =
   Some (comment_loop (lines, i, modified))"
proof (induction "(lines, i, modified)" arbitrary: lines i modified rule: comment_loop.induct)
  case (1 lines i modified)
  show ?case
  proof (cases "i < length lines")
    case False
    then show ?thesis
      by (subst while_option_unfold) (simp add: loop_cond_def comment_loop.simps [of lines i modified])
  next
    case True
    obtain lines' i' modified' where b: "loop_body (lines, i, modified) = (lines', i', modified')"
      by (cases "loop_body (lines, i, modified)") auto
    have "while_option loop_cond loop_body (lines, i, modified) =
        while_option loop_cond loop_body (lines', i', modified')"
      using True b by (subst while_option_unfold) (simp add: loop_cond_def)
    with "1.hyps" [OF True b] True b show ?thesis
      by (simp add: comment_loop.simps [of lines i modified])
  qed
qed

text \<open>
  C10. An iteration of the main loop moves the index forward and keeps the number of
  lines; the index that the loop of lines 51 to 53 is left with, less one, is not before the
  index at the entry of the iteration; and the loop, run as a loop, stops with the result
  of \<open>comment_loop\<close>.
\<close>

theorem main_loop_terminates:
  "(i < length lines \<longrightarrow>
      i < fst (snd (loop_body (lines, i, modified))) \<and>
      length (fst (loop_body (lines, i, modified))) = length lines) \<and>
   int i \<le> int (scan_parens lines (i + 1) open_parens) - 1 \<and>
   map_option (\<lambda>(lines, i, modified). (lines, modified))
     (while_option loop_cond loop_body (lines, i, modified)) =
   Some (comment_loop (lines, i, modified))"
proof -
  have "i + 1 \<le> scan_parens lines (i + 1) open_parens"
    by (rule scan_parens_ge)
  then have "int i \<le> int (scan_parens lines (i + 1) open_parens) - 1"
    by simp
  then show ?thesis
    by (simp add: loop_body_index loop_body_length while_option_comment_loop)
qed

theorem main_loop_terminates_witness:
  "(0::nat) < length [''console.error(\<newline>'', ''1);\<newline>''] \<and>
   fst (snd (loop_body ([''console.error(\<newline>'', ''1);\<newline>''], 0, False))) = 2 \<and>
   length (fst (loop_body ([''console.error(\<newline>'', ''1);\<newline>''], 0, False))) = 2 \<and>
   while_option loop_cond loop_body ([''console.error(\<newline>'', ''1);\<newline>''], 0, False) \<noteq> None"
proof -
  let ?L = "[''console.error(\<newline>'', ''1);\<newline>'']"
  have l: "(0::nat) < length ?L"
    by simp
  have b: "fst (snd (loop_body (?L, 0, False))) = 2"
    by code_simp
  from main_loop_terminates [of 0 ?L False 1] l b show ?thesis
    by auto
qed

section \<open>Scans that reach the end of the file\<close>

text \<open>
  C8, as the code has it. No list access of a pass is out of range, so a pass raises
  nothing. When the start line of a span opens a template literal and no later line
  contains a backtick, the scan ends at the number of lines, one past the last line. When
  the span is resolved by the parentheses and the count stays positive to the last line,
  the span ends at the last line. In both cases the lines after the start line are as they
  were.
\<close>

theorem scan_stops_at_end_of_file:
  "comment_out_lines_chk lines = Inr (comment_out_lines lines) \<and>
   ((s, e) \<in> set (spans lines 0) \<and> open_literal (lstrip (lines ! s)) \<and>
    (\<forall>k. s < k \<and> k < length lines \<longrightarrow> backtick \<notin> set (lines ! k)) \<longrightarrow>
      e = length lines \<and>
      (\<forall>k. s < k \<and> k < length lines \<longrightarrow> fst (comment_out_lines lines) ! k = lines ! k)) \<and>
   ((s, e) \<in> set (spans lines 0) \<and> \<not> open_literal (lstrip (lines ! s)) \<and>
    unterminated (lstrip (lines ! s)) \<and>
    (\<forall>k. s \<le> k \<and> k < length lines \<longrightarrow> 0 < paren_balance lines s k) \<longrightarrow>
      e = length lines - 1 \<and>
      (\<forall>k. s < k \<and> k < length lines \<longrightarrow> fst (comment_out_lines lines) ! k = lines ! k))"
proof (intro conjI impI)
  show "comment_out_lines_chk lines = Inr (comment_out_lines lines)"
    by (rule comment_out_lines_chk_eq)
next
  assume a: "(s, e) \<in> set (spans lines 0) \<and> open_literal (lstrip (lines ! s)) \<and>
    (\<forall>k. s < k \<and> k < length lines \<longrightarrow> backtick \<notin> set (lines ! k))"
  then have sp: "(s, e) \<in> set (spans lines 0)" and s: "s < length lines"
    using spans_start [of s e lines 0] by simp_all
  from a s have "scan_backtick lines (s + 1) = length lines"
    by (intro scan_backtick_none) auto
  with a span_end_literal [of s e lines] show e: "e = length lines"
    by simp
  show "\<forall>k. s < k \<and> k < length lines \<longrightarrow> fst (comment_out_lines lines) ! k = lines ! k"
    using span_lines(2) [OF sp] e by simp
next
  assume a: "(s, e) \<in> set (spans lines 0) \<and> \<not> open_literal (lstrip (lines ! s)) \<and>
    unterminated (lstrip (lines ! s)) \<and>
    (\<forall>k. s \<le> k \<and> k < length lines \<longrightarrow> 0 < paren_balance lines s k)"
  then have sp: "(s, e) \<in> set (spans lines 0)" and s: "s < length lines"
    using spans_start [of s e lines 0] by simp_all
  from a s have p: "0 < paren_delta (lstrip (lines ! s))"
    using paren_balance_start [of lines s] by fastforce
  from a s have "scan_parens lines (s + 1) (paren_delta (lstrip (lines ! s))) = length lines"
    using p by (intro scan_parens_none) (auto simp: paren_balance_def)
  with a p span_end_parens [of s e lines] show e: "e = length lines - 1"
    by simp
  show "\<forall>k. s < k \<and> k < length lines \<longrightarrow> fst (comment_out_lines lines) ! k = lines ! k"
    using span_lines(2) [OF sp] e by auto
qed

text \<open>A template literal and a call, each left open at the end of the file.\<close>

theorem scan_stops_at_end_of_file_witness:
  "(0, 2) \<in> set (spans [''console.log(`abc\<newline>'', ''def\<newline>''] 0) \<and>
   open_literal (lstrip ([''console.log(`abc\<newline>'', ''def\<newline>''] ! 0)) \<and>
   (2::nat) = length [''console.log(`abc\<newline>'', ''def\<newline>''] \<and>
   comment_out_lines_chk [''console.log(`abc\<newline>'', ''def\<newline>''] =
     Inr ([''// console.log(`abc\<newline>'', ''def\<newline>''], True) \<and>
   (0, 1) \<in> set (spans [''console.info(a,\<newline>'', ''(b\<newline>''] 0) \<and>
   \<not> open_literal (lstrip ([''console.info(a,\<newline>'', ''(b\<newline>''] ! 0)) \<and>
   unterminated (lstrip ([''console.info(a,\<newline>'', ''(b\<newline>''] ! 0)) \<and>
   paren_balance [''console.info(a,\<newline>'', ''(b\<newline>''] 0 0 = 1 \<and>
   paren_balance [''console.info(a,\<newline>'', ''(b\<newline>''] 0 1 = 2 \<and>
   (1::nat) = length [''console.info(a,\<newline>'', ''(b\<newline>''] - 1 \<and>
   fst (comment_out_lines [''console.info(a,\<newline>'', ''(b\<newline>'']) ! 1 = ''(b\<newline>''"
proof -
  let ?L = "[''console.log(`abc\<newline>'', ''def\<newline>'']"
  let ?M = "[''console.info(a,\<newline>'', ''(b\<newline>'']"
  have l1: "(0, 2) \<in> set (spans ?L 0)"
    by code_simp
  have l2: "open_literal (lstrip (?L ! 0))"
    by code_simp
  have l3: "\<forall>k. 0 < k \<and> k < length ?L \<longrightarrow> backtick \<notin> set (?L ! k)"
    by (auto simp: backtick_def less_Suc_eq)
  have l4: "comment_out_lines ?L = ([''// console.log(`abc\<newline>'', ''def\<newline>''], True)"
    by code_simp
  have m1: "(0, 1) \<in> set (spans ?M 0)"
    by code_simp
  have m2: "\<not> open_literal (lstrip (?M ! 0))"
    by code_simp
  have m3: "unterminated (lstrip (?M ! 0))"
    by code_simp
  have d: "paren_delta (lstrip (?M ! 0)) = 1"
    by (simp add: paren_delta_def count_def lstrip_def isspace_def)
  have b0: "paren_balance ?M 0 0 = 1"
    using d by (simp add: paren_balance_def)
  have b1: "paren_balance ?M 0 1 = 2"
    using d by (simp add: paren_balance_def paren_delta_def count_def)
  have m4: "\<forall>k. 0 \<le> k \<and> k < length ?M \<longrightarrow> 0 < paren_balance ?M 0 k"
    using b0 b1 by (simp add: less_Suc_eq)
  from scan_stops_at_end_of_file [of ?L 0 2] l1 l2 l3 l4
  have L: "(2::nat) = length ?L \<and>
      comment_out_lines_chk ?L = Inr ([''// console.log(`abc\<newline>'', ''def\<newline>''], True)"
    by simp
  from scan_stops_at_end_of_file [of ?M 0 1] m1 m2 m3 m4
  have M: "fst (comment_out_lines ?M) ! 1 = ?M ! 1"
    by simp
  from L M l1 l2 m1 m2 m3 b0 b1 show ?thesis
    by simp
qed

text \<open>
  A template literal opened on the second of three lines and never closed: the scan ends
  at index 3, and the last line has index 2.
\<close>

theorem literal_scan_stops_past_last_line:
  "spans [''x = 1;\<newline>'', ''console.info(`open\<newline>'', ''tail\<newline>''] 0 = [(1, 3)] \<and>
   open_literal (lstrip ([''x = 1;\<newline>'', ''console.info(`open\<newline>'', ''tail\<newline>''] ! 1)) \<and>
   backtick \<notin> set ([''x = 1;\<newline>'', ''console.info(`open\<newline>'', ''tail\<newline>''] ! 2) \<and>
   (3::nat) \<noteq> length [''x = 1;\<newline>'', ''console.info(`open\<newline>'', ''tail\<newline>''] - 1"
  by code_simp

section \<open>Files and the counter\<close>

lemma wf_lines_Nil: "wf_lines []"
  by (simp add: wf_lines_def)

lemma wf_lines_Cons:
  "wf_lines (l # ls) =
     (l \<noteq> [] \<and> newline \<notin> set (butlast l) \<and> (ls \<noteq> [] \<longrightarrow> last l = newline) \<and> wf_lines ls)"
proof -
  have "(\<forall>k < Suc n. P k) = (P 0 \<and> (\<forall>k < n. P (Suc k)))" for P and n :: nat
    by (metis less_Suc_eq_0_disj Suc_less_eq zero_less_Suc)
  then show ?thesis
    by (simp add: wf_lines_def)
qed

lemma readlines_eq_Nil: "(readlines c = []) = (c = [])"
  by (cases c) (auto split: list.split)

lemma concat_readlines: "concat (readlines c) = c"
proof (induction c)
  case Nil
  show ?case by simp
next
  case (Cons x xs)
  show ?case
  proof (cases "readlines xs")
    case Nil
    with Cons show ?thesis by (simp add: readlines_eq_Nil)
  next
    case (Cons l ls)
    with Cons.IH show ?thesis by auto
  qed
qed

lemma wf_lines_readlines: "wf_lines (readlines c)"
proof (induction c)
  case Nil
  show ?case by (simp add: wf_lines_Nil)
next
  case (Cons x xs)
  show ?case
  proof (cases "readlines xs")
    case Nil
    then show ?thesis by (simp add: wf_lines_Cons wf_lines_Nil)
  next
    case c: (Cons l ls)
    with Cons.IH have l: "l \<noteq> []" "newline \<notin> set (butlast l)" "ls \<noteq> [] \<longrightarrow> last l = newline"
      "wf_lines ls"
      by (simp_all add: wf_lines_Cons)
    show ?thesis
    proof (cases "x = newline")
      case True
      with Cons.IH c show ?thesis by (simp add: wf_lines_Cons)
    next
      case False
      with c l show ?thesis by (simp add: wf_lines_Cons)
    qed
  qed
qed

lemma readlines_line:
  "newline \<notin> set body \<Longrightarrow> readlines (body @ newline # rest) = (body @ [newline]) # readlines rest"
  by (induction body) auto

lemma readlines_last: "newline \<notin> set l \<Longrightarrow> l \<noteq> [] \<Longrightarrow> readlines l = [l]"
proof (induction l)
  case Nil
  then show ?case by simp
next
  case (Cons x xs)
  then show ?case by (cases xs) auto
qed

lemma readlines_concat: "wf_lines ls \<Longrightarrow> readlines (concat ls) = ls"
proof (induction ls)
  case Nil
  show ?case by simp
next
  case (Cons l ls)
  then have l: "l \<noteq> []" "newline \<notin> set (butlast l)" "ls \<noteq> [] \<longrightarrow> last l = newline"
    and IH: "readlines (concat ls) = ls"
    by (simp_all add: wf_lines_Cons)
  show ?case
  proof (cases "last l = newline")
    case True
    with l have "l = butlast l @ [newline]"
      by (metis append_butlast_last_id)
    then have "readlines (concat (l # ls)) = readlines (butlast l @ newline # concat ls)"
      by (metis append_Cons append_Nil append_assoc concat.simps(2))
    also have "\<dots> = (butlast l @ [newline]) # readlines (concat ls)"
      using l by (intro readlines_line)
    finally show ?thesis
      using IH \<open>l = butlast l @ [newline]\<close> by simp
  next
    case False
    with l have "ls = []" by blast
    moreover from False l have "newline \<notin> set l"
      by (metis append_butlast_last_id set_ConsD set_append Un_iff list.set(1) empty_iff)
    ultimately show ?thesis
      using l by (simp add: readlines_last)
  qed
qed

lemma line_starts_line:
  "newline \<notin> set body \<Longrightarrow> line_starts (body @ newline # rest) = rest # line_starts rest"
  by (induction body) auto

lemma line_starts_last: "newline \<notin> set l \<Longrightarrow> line_starts l = []"
  by (induction l) auto

lemma dot_star_iff: "dot_star k s = (\<exists>a b. s = a @ b \<and> newline \<notin> set a \<and> k b)"
proof (induction s)
  case Nil
  show ?case by simp
next
  case (Cons c cs)
  show ?case
  proof
    assume "dot_star k (c # cs)"
    then consider "k (c # cs)" | "c \<noteq> newline" "dot_star k cs"
      by auto
    then show "\<exists>a b. c # cs = a @ b \<and> newline \<notin> set a \<and> k b"
    proof cases
      case 1
      then have "c # cs = [] @ (c # cs) \<and> newline \<notin> set [] \<and> k (c # cs)"
        by simp
      then show ?thesis by blast
    next
      case 2
      with Cons.IH obtain a b where "cs = a @ b" "newline \<notin> set a" "k b"
        by auto
      with 2 have "c # cs = (c # a) @ b \<and> newline \<notin> set (c # a) \<and> k b"
        by simp
      then show ?thesis by blast
    qed
  next
    assume "\<exists>a b. c # cs = a @ b \<and> newline \<notin> set a \<and> k b"
    then obtain a b where ab: "c # cs = a @ b" "newline \<notin> set a" "k b"
      by auto
    show "dot_star k (c # cs)"
    proof (cases a)
      case Nil
      with ab have "k (c # cs)" by simp
      then show ?thesis by simp
    next
      case (Cons x xs)
      with ab have "c = x" "cs = xs @ b" "newline \<notin> set xs" "c \<noteq> newline"
        by auto
      with ab Cons.IH show ?thesis by auto
    qed
  qed
qed

lemma startswith_line:
  assumes "newline \<notin> set p"
  shows "startswith (b @ newline # rest) p = startswith b p"
proof (cases "length p \<le> length b")
  case True
  then show ?thesis by (simp add: startswith_def)
next
  case False
  then have "take (length p) (b @ newline # rest) =
      b @ newline # take (length p - Suc (length b)) rest"
    by (simp add: take_Cons')
  then have "newline \<in> set (take (length p) (b @ newline # rest))"
    by simp
  with assms have "take (length p) (b @ newline # rest) \<noteq> p"
    by metis
  moreover from False have "length (take (length p) b) \<noteq> length p"
    by simp
  then have "take (length p) b \<noteq> p"
    by metis
  ultimately show ?thesis by (simp add: startswith_def)
qed

lemma call_at_line: "call_at (b @ newline # rest) = call_at b"
proof -
  have "newline \<notin> set (''console.'' @ meth)" if "meth \<in> set methods" for meth
    using that by (auto simp: methods_def newline_def)
  then show ?thesis
    unfolding call_at_def list_ex_iff by (simp add: startswith_line)
qed

lemma dot_star_line:
  assumes "\<And>b. newline \<notin> set b \<Longrightarrow> k (b @ newline # rest) = k b"
    and "newline \<notin> set body"
  shows "dot_star k (body @ newline # rest) = dot_star k body"
  using assms(2)
proof (induction body)
  case Nil
  from assms(1) [of "[]"] show ?case by simp
next
  case (Cons c cs)
  with assms(1) [of "c # cs"] show ?case by simp
qed

lemma commented_call_at_line:
  assumes "newline \<notin> set b"
  shows "commented_call_at (b @ newline # rest) = commented_call_at b"
proof (cases "2 \<le> length b")
  case True
  then have "drop 2 (b @ newline # rest) = drop 2 b @ newline # rest"
    by simp
  moreover from assms have "newline \<notin> set (drop 2 b)"
    by (auto dest: in_set_dropD)
  moreover have "newline \<notin> set ''//''"
    by (simp add: newline_def)
  ultimately show ?thesis
    by (simp add: commented_call_at_def startswith_line dot_star_line call_at_line
        del: drop_append)
next
  case False
  then have "\<not> startswith b ''//''"
    by (auto simp: startswith_def)
  moreover have "newline \<notin> set ''//''"
    by (simp add: newline_def)
  ultimately show ?thesis
    by (simp add: commented_call_at_def startswith_line)
qed

lemma pattern_at_line:
  "newline \<notin> set body \<Longrightarrow> pattern_at (body @ newline # rest) = pattern_at body"
  by (simp add: pattern_at_def dot_star_line commented_call_at_line call_at_line)

lemma pattern_at_Nil: "\<not> pattern_at []"
  by (simp add: pattern_at_def call_at_def methods_def startswith_def)

lemma count_active_concat:
  "wf_lines ls \<Longrightarrow>
   length (filter pattern_at (concat ls # line_starts (concat ls))) = length (filter pattern_at ls)"
proof (induction ls)
  case Nil
  show ?case by (simp add: pattern_at_Nil)
next
  case (Cons l ls)
  then have l: "l \<noteq> []" "newline \<notin> set (butlast l)" "ls \<noteq> [] \<longrightarrow> last l = newline"
    and IH: "length (filter pattern_at (concat ls # line_starts (concat ls))) =
      length (filter pattern_at ls)"
    by (simp_all add: wf_lines_Cons)
  show ?case
  proof (cases "last l = newline")
    case True
    with l obtain body where eq: "l = body @ [newline]" and body: "newline \<notin> set body"
      by (metis append_butlast_last_id)
    have "pattern_at (body @ newline # concat ls) = pattern_at body"
      using body by (rule pattern_at_line)
    moreover have "pattern_at (body @ newline # []) = pattern_at body"
      using body by (rule pattern_at_line)
    moreover have "line_starts (body @ newline # concat ls) = concat ls # line_starts (concat ls)"
      using body by (rule line_starts_line)
    ultimately show ?thesis
      using IH by (simp add: eq)
  next
    case False
    with l have "ls = []" by blast
    moreover from False l have "newline \<notin> set l"
      by (metis append_butlast_last_id set_ConsD set_append Un_iff list.set(1) empty_iff)
    ultimately show ?thesis
      by (simp add: line_starts_last)
  qed
qed

lemma count_active_lines:
  "count_active_console_statements content = length (filter pattern_at (readlines content))"
  using count_active_concat [OF wf_lines_readlines, of content]
  by (simp add: count_active_console_statements_def concat_readlines)


lemma call_at_Nil: "\<not> call_at []"
  by (simp add: call_at_def methods_def startswith_def)

lemma contains_call_iff: "contains_call l = (\<exists>a b. l = a @ b \<and> call_at b)"
proof (induction l)
  case Nil
  show ?case by (simp add: call_at_Nil)
next
  case (Cons c cs)
  show ?case
  proof
    assume "contains_call (c # cs)"
    then consider "call_at (c # cs)" | "contains_call cs"
      by auto
    then show "\<exists>a b. c # cs = a @ b \<and> call_at b"
    proof cases
      case 1
      then have "c # cs = [] @ (c # cs) \<and> call_at (c # cs)" by simp
      then show ?thesis by blast
    next
      case 2
      with Cons.IH obtain a b where "cs = a @ b" "call_at b" by auto
      then have "c # cs = (c # a) @ b \<and> call_at b" by simp
      then show ?thesis by blast
    qed
  next
    assume "\<exists>a b. c # cs = a @ b \<and> call_at b"
    then obtain a b where ab: "c # cs = a @ b" "call_at b" by auto
    show "contains_call (c # cs)"
    proof (cases a)
      case Nil
      with ab have "call_at (c # cs)" by simp
      then show ?thesis by simp
    next
      case (Cons x xs)
      with ab have "cs = xs @ b" by simp
      with ab Cons.IH show ?thesis by auto
    qed
  qed
qed

lemma contains_commented_call_iff:
  "contains_commented_call l = (\<exists>a b. l = a @ ''//'' @ b \<and> contains_call b)"
proof (induction l)
  case Nil
  show ?case by simp
next
  case (Cons c cs)
  have here: "(startswith (c # cs) ''//'' \<and> contains_call (drop 2 (c # cs))) =
      (\<exists>b. c # cs = ''//'' @ b \<and> contains_call b)"
    by (auto simp: startswith_iff)
  show ?case
  proof
    assume "contains_commented_call (c # cs)"
    then consider "\<exists>b. c # cs = ''//'' @ b \<and> contains_call b" | "contains_commented_call cs"
      using here by auto
    then show "\<exists>a b. c # cs = a @ ''//'' @ b \<and> contains_call b"
    proof cases
      case 1
      then obtain b where "c # cs = [] @ ''//'' @ b \<and> contains_call b" by auto
      then show ?thesis by blast
    next
      case 2
      with Cons.IH obtain a b where "cs = a @ ''//'' @ b" "contains_call b" by auto
      then have "c # cs = (c # a) @ ''//'' @ b \<and> contains_call b" by simp
      then show ?thesis by blast
    qed
  next
    assume "\<exists>a b. c # cs = a @ ''//'' @ b \<and> contains_call b"
    then obtain a b where ab: "c # cs = a @ ''//'' @ b" "contains_call b" by auto
    show "contains_commented_call (c # cs)"
    proof (cases a)
      case Nil
      with ab have "\<exists>b. c # cs = ''//'' @ b \<and> contains_call b" by auto
      with here show ?thesis by simp
    next
      case (Cons x xs)
      with ab have "cs = xs @ ''//'' @ b" by simp
      with ab Cons.IH have "contains_commented_call cs" by blast
      then show ?thesis by simp
    qed
  qed
qed

lemma proper_prefix_no_newline:
  assumes "newline \<notin> set (butlast l)" "l = a @ b" "b \<noteq> []"
  shows "newline \<notin> set a"
proof -
  from assms(2,3) have "butlast l = a @ butlast b"
    by (simp add: butlast_append)
  with assms(1) show ?thesis by simp
qed

lemma call_at_nonempty: "call_at b \<Longrightarrow> b \<noteq> []"
  using call_at_Nil by auto

lemma contains_call_nonempty: "contains_call b \<Longrightarrow> b \<noteq> []"
  by auto

lemma dot_star_call_line:
  assumes "newline \<notin> set (butlast l)"
  shows "dot_star call_at l = contains_call l"
  unfolding dot_star_iff contains_call_iff
  using proper_prefix_no_newline [OF assms] call_at_nonempty by blast

lemma dot_star_commented_line:
  assumes "newline \<notin> set (butlast l)"
  shows "dot_star commented_call_at l = contains_commented_call l"
proof
  assume "dot_star commented_call_at l"
  then obtain a b where ab: "l = a @ b" "commented_call_at b"
    unfolding dot_star_iff by auto
  then obtain r where r: "b = ''//'' @ r" "dot_star call_at r"
    by (auto simp: commented_call_at_def startswith_iff)
  then have "contains_call r"
    unfolding dot_star_iff contains_call_iff by blast
  with ab r show "contains_commented_call l"
    unfolding contains_commented_call_iff by blast
next
  assume "contains_commented_call l"
  then obtain a b where ab: "l = a @ ''//'' @ b" "contains_call b"
    unfolding contains_commented_call_iff by auto
  then obtain a' c where c: "b = a' @ c" "call_at c"
    unfolding contains_call_iff by auto
  then have "c \<noteq> []"
    using call_at_nonempty by simp
  with ab c have "l = (a @ ''//'' @ a') @ c" "c \<noteq> []"
    by simp_all
  with assms have "newline \<notin> set (a @ ''//'' @ a')"
    by (rule proper_prefix_no_newline)
  then have n: "newline \<notin> set a" "newline \<notin> set a'"
    by simp_all
  with c have "dot_star call_at b"
    unfolding dot_star_iff by blast
  then have "commented_call_at (''//'' @ b)"
    by (simp add: commented_call_at_def startswith_def)
  with ab n show "dot_star commented_call_at l"
    unfolding dot_star_iff by blast
qed

lemma pattern_at_active_line:
  "newline \<notin> set (butlast l) \<Longrightarrow> pattern_at l = active_line l"
  by (auto simp: pattern_at_def active_line_def dot_star_call_line dot_star_commented_line)


lemma wf_commented:
  assumes "newline \<notin> set (butlast l)" "is_console_call (lstrip l)"
  shows "commented l \<noteq> []" "newline \<notin> set (butlast (commented l))" "last (commented l) = last l"
proof -
  from assms(2) have ne: "lstrip l \<noteq> []"
    by (rule is_console_call_nonempty)
  show "commented l \<noteq> []"
    by (simp add: commented_def)
  have "butlast l = indent_of l @ butlast (lstrip l)"
    using ne butlast_append [of "indent_of l" "lstrip l"] by (simp add: indent_lstrip)
  with assms(1) have "newline \<notin> set (indent_of l)" "newline \<notin> set (butlast (lstrip l))"
    by simp_all
  moreover have "butlast (commented l) = indent_of l @ ''// '' @ butlast (lstrip l)"
    using ne by (simp add: commented_def butlast_append)
  ultimately show "newline \<notin> set (butlast (commented l))"
    by (simp add: newline_def)
  have "last (commented l) = last (indent_of l @ lstrip l)"
    using ne by (simp add: commented_def)
  then show "last (commented l) = last l"
    by (simp only: indent_lstrip)
qed

lemma wf_lines_comment_out:
  assumes "wf_lines ls"
  shows "wf_lines (fst (comment_out_lines ls))"
  unfolding wf_lines_def
proof (intro allI impI)
  fix k
  assume "k < length (fst (comment_out_lines ls))"
  then have k: "k < length ls"
    by (simp add: comment_out_lines_length)
  with assms have w: "ls ! k \<noteq> []" "newline \<notin> set (butlast (ls ! k))"
    "k + 1 < length ls \<longrightarrow> last (ls ! k) = newline"
    by (simp_all add: wf_lines_def)
  show "fst (comment_out_lines ls) ! k \<noteq> [] \<and>
      newline \<notin> set (butlast (fst (comment_out_lines ls) ! k)) \<and>
      (k + 1 < length (fst (comment_out_lines ls)) \<longrightarrow>
       last (fst (comment_out_lines ls) ! k) = newline)"
  proof (cases "k \<in> fst ` set (spans ls 0)")
    case True
    then have "is_console_call (lstrip (ls ! k))"
      using spans_fst [of k ls 0] by simp
    with w wf_commented [of "ls ! k"] True k show ?thesis
      by (simp add: comment_out_lines_nth comment_out_lines_length)
  next
    case False
    with w k show ?thesis
      by (simp add: comment_out_lines_nth comment_out_lines_length)
  qed
qed

lemma commented_not_active:
  assumes "is_console_call (lstrip l)"
  shows "\<not> active_line (commented l)"
proof -
  from assms have "call_at (lstrip l)"
    by (simp add: is_console_call_iff call_at_def list_ex_iff)
  then have "contains_call ('' '' @ lstrip l)"
    unfolding contains_call_iff by blast
  moreover have "commented l = indent_of l @ ''//'' @ '' '' @ lstrip l"
    by (simp add: commented_def)
  ultimately have "contains_commented_call (commented l)"
    unfolding contains_commented_call_iff by blast
  then show ?thesis
    by (simp add: active_line_def)
qed

lemma filter_pattern_at_wf:
  assumes "wf_lines ls"
  shows "filter pattern_at ls = filter active_line ls"
proof (rule filter_cong [OF refl])
  fix l
  assume "l \<in> set ls"
  then obtain k where "k < length ls" "l = ls ! k"
    by (auto simp: in_set_conv_nth)
  with assms have "newline \<notin> set (butlast l)"
    by (simp add: wf_lines_def)
  then show "pattern_at l = active_line l"
    by (rule pattern_at_active_line)
qed

lemma comment_out_console_statements_lines:
  "fst (comment_out_console_statements content) =
     writelines (fst (comment_out_lines (readlines content)))"
proof (cases "spans (readlines content) 0 = []")
  case True
  then have "\<not> snd (comment_loop (readlines content, 0, False))"
    by (simp add: comment_loop_flag)
  moreover from True have "\<not> snd (comment_out_lines (readlines content))"
    by (simp add: comment_out_lines_snd)
  then have "fst (comment_out_lines (readlines content)) = readlines content"
    by (cases "comment_loop (readlines content, 0, False)")
       (simp add: comment_out_lines_def split: if_splits)
  ultimately show ?thesis
    by (cases "comment_loop (readlines content, 0, False)")
       (simp add: comment_out_console_statements_def writelines_def concat_readlines)
next
  case False
  then have "snd (comment_loop (readlines content, 0, False))"
    by (simp add: comment_loop_flag)
  then show ?thesis
    by (cases "comment_loop (readlines content, 0, False)")
       (simp add: comment_out_console_statements_def comment_out_lines_fst)
qed

lemma count_active_after:
  "count_active_console_statements (fst (comment_out_console_statements content)) =
     length (filter active_line (fst (comment_out_lines (readlines content))))"
proof -
  let ?out = "fst (comment_out_lines (readlines content))"
  have wf: "wf_lines ?out"
    by (intro wf_lines_comment_out wf_lines_readlines)
  then have "readlines (concat ?out) = ?out"
    by (rule readlines_concat)
  then show ?thesis
    by (simp add: comment_out_console_statements_lines writelines_def count_active_lines
        filter_pattern_at_wf [OF wf])
qed

text \<open>
  C6, as the code has it. The counter returns the number of lines of the content that
  contain a call anywhere, with no \<^verbatim>\<open>//\<close> before a call on the line. A line that a pass
  has commented out is not counted afterwards. After a pass the counter returns 0 exactly
  when every line that it counted before is the start line of a span.
\<close>

theorem counter_counts_calls_anywhere:
  "count_active_console_statements content = length (filter active_line (readlines content)) \<and>
   count_active_console_statements (fst (comment_out_console_statements content)) =
     length (filter active_line (fst (comment_out_lines (readlines content)))) \<and>
   (\<forall>k \<in> fst ` set (spans (readlines content) 0).
      \<not> active_line (fst (comment_out_lines (readlines content)) ! k)) \<and>
   (count_active_console_statements (fst (comment_out_console_statements content)) = 0) =
     (\<forall>k < length (readlines content).
        active_line (readlines content ! k) \<longrightarrow> k \<in> fst ` set (spans (readlines content) 0))"
proof (intro conjI ballI)
  let ?ls = "readlines content"
  let ?out = "fst (comment_out_lines ?ls)"
  show "count_active_console_statements content = length (filter active_line ?ls)"
    by (simp add: count_active_lines filter_pattern_at_wf [OF wf_lines_readlines])
  show "count_active_console_statements (fst (comment_out_console_statements content)) =
      length (filter active_line ?out)"
    by (rule count_active_after)
  show starts: "\<not> active_line (?out ! k)" if "k \<in> fst ` set (spans ?ls 0)" for k
    using that spans_fst [of k ?ls 0] by (simp add: comment_out_lines_nth commented_not_active)
  have "(count_active_console_statements (fst (comment_out_console_statements content)) = 0) =
      (\<forall>k < length ?out. \<not> active_line (?out ! k))"
    by (simp add: count_active_after filter_empty_conv all_set_conv_all_nth)
  also have "\<dots> = (\<forall>k < length ?ls. active_line (?ls ! k) \<longrightarrow> k \<in> fst ` set (spans ?ls 0))"
  proof -
    have "(\<not> active_line (?out ! k)) =
        (active_line (?ls ! k) \<longrightarrow> k \<in> fst ` set (spans ?ls 0))" if "k < length ?ls" for k
    proof (cases "k \<in> fst ` set (spans ?ls 0)")
      case True
      with starts [of k] show ?thesis by simp
    next
      case False
      with that show ?thesis by (simp add: comment_out_lines_nth)
    qed
    then show ?thesis
      by (simp add: comment_out_lines_length)
  qed
  finally show "(count_active_console_statements (fst (comment_out_console_statements content)) = 0) =
      (\<forall>k < length ?ls. active_line (?ls ! k) \<longrightarrow> k \<in> fst ` set (spans ?ls 0))" .
qed

text \<open>A file of one indented call: the counter goes from 1 to 0.\<close>

theorem counter_counts_calls_anywhere_witness:
  "0 \<in> fst ` set (spans (readlines ''  console.warn(\"x\");\<newline>'') 0) \<and>
   length (readlines ''  console.warn(\"x\");\<newline>'') = 1 \<and>
   count_active_console_statements ''  console.warn(\"x\");\<newline>'' = 1 \<and>
   fst (comment_out_console_statements ''  console.warn(\"x\");\<newline>'') =
     ''  // console.warn(\"x\");\<newline>'' \<and>
   count_active_console_statements
     (fst (comment_out_console_statements ''  console.warn(\"x\");\<newline>'')) = 0"
proof -
  let ?C = "''  console.warn(\"x\");\<newline>''"
  have s: "0 \<in> fst ` set (spans (readlines ?C) 0)"
    by code_simp
  have l: "length (readlines ?C) = 1"
    by code_simp
  have c: "count_active_console_statements ?C = 1"
    by code_simp
  have f: "fst (comment_out_console_statements ?C) = ''  // console.warn(\"x\");\<newline>''"
    by code_simp
  from s l have "\<forall>k < length (readlines ?C).
      active_line (readlines ?C ! k) \<longrightarrow> k \<in> fst ` set (spans (readlines ?C) 0)"
    by simp
  with counter_counts_calls_anywhere [of ?C]
  have "count_active_console_statements (fst (comment_out_console_statements ?C)) = 0"
    by blast
  with s l c f show ?thesis
    by blast
qed

text \<open>
  A call after \<^verbatim>\<open>if (debug)\<close>: the pass leaves the file as it is, and the counter
  returns 1 on it, while no line of the file begins with the call.
\<close>

theorem counter_nonzero_after_pass:
  "fst (comment_out_console_statements ''if (debug) console.log(\"x\");\<newline>'') =
     ''if (debug) console.log(\"x\");\<newline>'' \<and>
   count_active_console_statements
     (fst (comment_out_console_statements ''if (debug) console.log(\"x\");\<newline>'')) = 1 \<and>
   length (filter spec_match (readlines ''if (debug) console.log(\"x\");\<newline>'')) = 0"
  by code_simp

section \<open>A second pass\<close>

lemma spans_cover:
  "i \<le> k \<Longrightarrow> k < length lines \<Longrightarrow>
   k \<in> fst ` set (spans lines i) \<or>
   (\<exists>(s, e) \<in> set (spans lines i). s < k \<and> k \<le> e) \<or>
   \<not> is_console_call (lstrip (lines ! k))"
proof (induction lines i rule: spans.induct)
  case (1 lines i)
  then have i: "i < length lines" by simp
  show ?case
  proof (cases "is_console_call (lstrip (lines ! i))")
    case False
    then have eq: "spans lines i = spans lines (i + 1)"
      using i by (simp add: spans.simps [of lines i])
    show ?thesis
    proof (cases "k = i")
      case True
      with False show ?thesis by simp
    next
      case ne: False
      with "1.prems" have "i + 1 \<le> k" by simp
      from "1.IH"(2) [OF i False this "1.prems"(2)] show ?thesis
        unfolding eq .
    qed
  next
    case True
    let ?e = "find_end lines i (lstrip (lines ! i))"
    have eq: "spans lines i = (i, ?e) # spans lines (?e + 1)"
      using i True by (simp add: spans.simps [of lines i])
    consider "k = i" | "i < k" "k \<le> ?e" | "?e + 1 \<le> k"
      using "1.prems" by linarith
    then show ?thesis
    proof cases
      case 1
      then show ?thesis by (simp add: eq)
    next
      case 2
      then show ?thesis by (simp add: eq)
    next
      case 3
      from "1.IH"(1) [OF i True 3 "1.prems"(2)]
      consider "k \<in> fst ` set (spans lines (?e + 1))"
        | "\<exists>(s, e) \<in> set (spans lines (?e + 1)). s < k \<and> k \<le> e"
        | "\<not> is_console_call (lstrip (lines ! k))"
        by blast
      then show ?thesis
      proof cases
        case 1
        then show ?thesis by (simp add: eq)
      next
        case 2
        then show ?thesis by (simp add: eq)
      next
        case 3
        then show ?thesis by simp
      qed
    qed
  qed
qed

lemma spans_Nil_iff:
  "(spans lines 0 = []) = (\<forall>l \<in> set lines. \<not> is_console_call (lstrip l))"
proof
  assume e: "spans lines 0 = []"
  show "\<forall>l \<in> set lines. \<not> is_console_call (lstrip l)"
  proof
    fix l
    assume "l \<in> set lines"
    then obtain k where k: "k < length lines" "l = lines ! k"
      by (auto simp: in_set_conv_nth)
    with spans_cover [of 0 k lines] e show "\<not> is_console_call (lstrip l)"
      by simp
  qed
next
  assume a: "\<forall>l \<in> set lines. \<not> is_console_call (lstrip l)"
  show "spans lines 0 = []"
  proof (rule ccontr)
    assume "spans lines 0 \<noteq> []"
    then obtain s e where "(s, e) \<in> set (spans lines 0)"
      by (cases "spans lines 0") auto
    then have "s < length lines" "is_console_call (lstrip (lines ! s))"
      using spans_start [of s e lines 0] by simp_all
    with a show False by simp
  qed
qed

lemma commented_neq: "commented l \<noteq> l"
proof
  assume "commented l = l"
  then have "length (commented l) = length (indent_of l @ lstrip l)"
    by (simp only: indent_lstrip)
  then show False
    by (simp add: commented_def)
qed

lemma pass_identity_iff:
  "(fst (comment_out_lines lines) = lines) = (\<forall>l \<in> set lines. \<not> is_console_call (lstrip l))"
proof -
  have "(fst (comment_out_lines lines) = lines) = (spans lines 0 = [])"
  proof
    assume eq: "fst (comment_out_lines lines) = lines"
    show "spans lines 0 = []"
    proof (rule ccontr)
      assume "spans lines 0 \<noteq> []"
      then obtain s e where se: "(s, e) \<in> set (spans lines 0)"
        by (cases "spans lines 0") auto
      from span_lines(1) [OF se] eq commented_neq [of "lines ! s"] show False
        by simp
    qed
  next
    assume "spans lines 0 = []"
    then have "\<forall>k < length lines. fst (comment_out_lines lines) ! k = lines ! k"
      by (simp add: comment_out_lines_nth)
    then show "fst (comment_out_lines lines) = lines"
      by (intro nth_equalityI) (simp_all add: comment_out_lines_length)
  qed
  then show ?thesis
    by (simp only: spans_Nil_iff)
qed


lemma no_match_after_pass_iff:
  "(\<forall>l \<in> set (fst (comment_out_lines lines)). \<not> is_console_call (lstrip l)) =
   (\<forall>(s, e) \<in> set (spans lines 0). \<forall>k. s < k \<and> k \<le> e \<and> k < length lines \<longrightarrow>
      \<not> is_console_call (lstrip (lines ! k)))"
proof
  let ?out = "fst (comment_out_lines lines)"
  assume a: "\<forall>l \<in> set ?out. \<not> is_console_call (lstrip l)"
  have "\<not> is_console_call (lstrip (lines ! k))"
    if se: "(s, e) \<in> set (spans lines 0)" and k: "s < k" "k \<le> e" "k < length lines" for s e k
  proof -
    from span_lines(2) [OF se k] have "?out ! k = lines ! k" .
    moreover from k have "?out ! k \<in> set ?out"
      by (simp add: comment_out_lines_length)
    ultimately show ?thesis
      using a by metis
  qed
  then show "\<forall>(s, e) \<in> set (spans lines 0). \<forall>k. s < k \<and> k \<le> e \<and> k < length lines \<longrightarrow>
      \<not> is_console_call (lstrip (lines ! k))"
    by blast
next
  let ?out = "fst (comment_out_lines lines)"
  assume a: "\<forall>(s, e) \<in> set (spans lines 0). \<forall>k. s < k \<and> k \<le> e \<and> k < length lines \<longrightarrow>
      \<not> is_console_call (lstrip (lines ! k))"
  show "\<forall>l \<in> set ?out. \<not> is_console_call (lstrip l)"
  proof
    fix l
    assume "l \<in> set ?out"
    then obtain k where k: "k < length lines" "l = ?out ! k"
      by (auto simp: in_set_conv_nth comment_out_lines_length)
    show "\<not> is_console_call (lstrip l)"
    proof (cases "k \<in> fst ` set (spans lines 0)")
      case True
      with k show ?thesis
        by (simp add: comment_out_lines_nth commented_no_match)
    next
      case False
      with k have l: "l = lines ! k"
        by (simp add: comment_out_lines_nth)
      from spans_cover [of 0 k lines] k False
      consider "\<exists>(s, e) \<in> set (spans lines 0). s < k \<and> k \<le> e"
        | "\<not> is_console_call (lstrip (lines ! k))"
        by blast
      then show ?thesis
      proof cases
        case 1
        then obtain s e where "(s, e) \<in> set (spans lines 0)" "s < k" "k \<le> e"
          by blast
        with a k have "\<not> is_console_call (lstrip (lines ! k))"
          by blast
        with l show ?thesis by simp
      next
        case 2
        with l show ?thesis by simp
      qed
    qed
  qed
qed

text \<open>
  C1, as the code has it. A line that a pass has commented out is no match any more, and
  a second pass leaves every line that the first pass rewrote as the first pass wrote it.
  The second pass returns the lines of the first exactly when no line of a span of the
  first pass after its start line, up to the end of the span, is itself a match. Two
  calls on the content of a file return the content of one call exactly when the second
  pass returns the lines of the first on the lines read from it.
\<close>

theorem second_pass:
  "(\<forall>k < length lines. fst (comment_out_lines lines) ! k \<noteq> lines ! k \<longrightarrow>
      fst (comment_out_lines (fst (comment_out_lines lines))) ! k =
        fst (comment_out_lines lines) ! k) \<and>
   (fst (comment_out_lines (fst (comment_out_lines lines))) = fst (comment_out_lines lines)) =
     (\<forall>(s, e) \<in> set (spans lines 0). \<forall>k. s < k \<and> k \<le> e \<and> k < length lines \<longrightarrow>
        \<not> is_console_call (lstrip (lines ! k))) \<and>
   \<not> is_console_call (lstrip (commented line)) \<and>
   (fst (comment_out_console_statements (fst (comment_out_console_statements content))) =
      fst (comment_out_console_statements content)) =
     (fst (comment_out_lines (fst (comment_out_lines (readlines content)))) =
        fst (comment_out_lines (readlines content)))"
proof (intro conjI allI impI)
  let ?out = "fst (comment_out_lines lines)"
  fix k
  assume k: "k < length lines" and ch: "?out ! k \<noteq> lines ! k"
  then have "?out ! k = commented (lines ! k)"
    by (simp add: comment_out_lines_nth split: if_splits)
  then have "\<not> is_console_call (lstrip (?out ! k))"
    by (simp add: commented_no_match)
  then have "k \<notin> fst ` set (spans ?out 0)"
    using spans_fst [of k ?out 0] by blast
  with k show "fst (comment_out_lines ?out) ! k = ?out ! k"
    by (simp add: comment_out_lines_nth comment_out_lines_length)
next
  show "(fst (comment_out_lines (fst (comment_out_lines lines))) = fst (comment_out_lines lines)) =
     (\<forall>(s, e) \<in> set (spans lines 0). \<forall>k. s < k \<and> k \<le> e \<and> k < length lines \<longrightarrow>
        \<not> is_console_call (lstrip (lines ! k)))"
    by (simp only: pass_identity_iff no_match_after_pass_iff)
next
  show "\<not> is_console_call (lstrip (commented line))"
    by (rule commented_no_match)
next
  let ?out = "fst (comment_out_lines (readlines content))"
  let ?out2 = "fst (comment_out_lines ?out)"
  have wf: "wf_lines ?out"
    by (intro wf_lines_comment_out wf_lines_readlines)
  then have r: "readlines (concat ?out) = ?out"
    by (rule readlines_concat)
  have "wf_lines ?out2"
    using wf by (rule wf_lines_comment_out)
  then have r2: "readlines (concat ?out2) = ?out2"
    by (rule readlines_concat)
  have c: "(concat ?out2 = concat ?out) = (?out2 = ?out)"
  proof
    assume "concat ?out2 = concat ?out"
    then have "readlines (concat ?out2) = readlines (concat ?out)"
      by (rule arg_cong)
    then show "?out2 = ?out"
      by (simp only: r r2)
  next
    assume "?out2 = ?out"
    then show "concat ?out2 = concat ?out"
      by (rule arg_cong)
  qed
  have "fst (comment_out_console_statements content) = concat ?out"
    by (simp only: comment_out_console_statements_lines writelines_def)
  moreover have "fst (comment_out_console_statements (concat ?out)) = concat ?out2"
    by (simp only: comment_out_console_statements_lines [of "concat ?out"] writelines_def r)
  ultimately show "(fst (comment_out_console_statements (fst (comment_out_console_statements content))) =
      fst (comment_out_console_statements content)) = (?out2 = ?out)"
    using c by (simp only:)
qed

text \<open>Scenario B: the second line is no match, and the second pass changes nothing.\<close>

theorem second_pass_witness:
  "spans [''console.error(\<newline>'', ''  \"failure\", err);\<newline>''] 0 = [(0, 1)] \<and>
   \<not> is_console_call (lstrip ([''console.error(\<newline>'', ''  \"failure\", err);\<newline>''] ! 1)) \<and>
   fst (comment_out_lines [''console.error(\<newline>'', ''  \"failure\", err);\<newline>'']) ! 0 \<noteq>
     [''console.error(\<newline>'', ''  \"failure\", err);\<newline>''] ! 0 \<and>
   fst (comment_out_lines
         (fst (comment_out_lines [''console.error(\<newline>'', ''  \"failure\", err);\<newline>'']))) ! 0 =
     fst (comment_out_lines [''console.error(\<newline>'', ''  \"failure\", err);\<newline>'']) ! 0 \<and>
   fst (comment_out_lines
         (fst (comment_out_lines [''console.error(\<newline>'', ''  \"failure\", err);\<newline>'']))) =
     fst (comment_out_lines [''console.error(\<newline>'', ''  \"failure\", err);\<newline>''])"
proof -
  let ?L = "[''console.error(\<newline>'', ''  \"failure\", err);\<newline>'']"
  have s: "spans ?L 0 = [(0, 1)]"
    by code_simp
  have n: "\<not> is_console_call (lstrip (?L ! 1))"
    by code_simp
  have c: "fst (comment_out_lines ?L) ! 0 \<noteq> ?L ! 0"
    by code_simp
  have l: "(0::nat) < length ?L"
    by simp
  have "\<forall>(s, e) \<in> set (spans ?L 0). \<forall>k. s < k \<and> k \<le> e \<and> k < length ?L \<longrightarrow>
      \<not> is_console_call (lstrip (?L ! k))"
    unfolding s using n by (auto simp: le_Suc_eq)
  with second_pass [of ?L] have i: "fst (comment_out_lines (fst (comment_out_lines ?L))) =
      fst (comment_out_lines ?L)"
    by blast
  from second_pass [of ?L] l c
  have "fst (comment_out_lines (fst (comment_out_lines ?L))) ! 0 = fst (comment_out_lines ?L) ! 0"
    by blast
  with s n c i show ?thesis
    by blast
qed

text \<open>
  A template literal whose second line begins with \<^verbatim>\<open>console.log\<close>: the first pass
  comments out the first line only, and the second pass comments out the second line.
\<close>

theorem second_pass_differs:
  "fst (comment_out_console_statements ''console.log(`Usage:\<newline>console.log prints`);\<newline>'') =
     ''// console.log(`Usage:\<newline>console.log prints`);\<newline>'' \<and>
   fst (comment_out_console_statements
         (fst (comment_out_console_statements
                ''console.log(`Usage:\<newline>console.log prints`);\<newline>''))) =
     ''// console.log(`Usage:\<newline>// console.log prints`);\<newline>'' \<and>
   fst (comment_out_console_statements
         (fst (comment_out_console_statements
                ''console.log(`Usage:\<newline>console.log prints`);\<newline>''))) \<noteq>
     fst (comment_out_console_statements ''console.log(`Usage:\<newline>console.log prints`);\<newline>'')"
  by code_simp

end
